theory Spec2Isabelle
  imports Main
begin

section \<open>The deferred effect scheduler of createDeferredEffect.ts\<close>

text \<open>
  The module keeps its scheduler state in module-level variables (\<open>effectQueue\<close>,
  \<open>runningEffects\<close>, \<open>effectDeps\<close>, \<open>currentEffect\<close>, \<open>effectTaskIsScheduled\<close>)
  and defines the tracked \<open>createSignal\<close>, \<open>createDeferredEffect\<close> and \<open>runEffects\<close>.
  The embedding passes that state explicitly. Function references (effects) and writer
  references (\<open>_set\<close>) are compared by identity in the source, so both are modelled by
  identifiers.
\<close>

type_synonym fid = nat
type_synonym sid = nat

datatype val = Undefined | Num int

text \<open>
  The body of a user effect, as far as it can interact with this module: it may call the
  tracked reader (\<open>Read\<close>, continuing with the value read), call the tracked writer
  (\<open>Write\<close>), append to a user-side output list (\<open>Push\<close>, standing for any observable
  action of the body), throw, or return a value. A body that itself registers effects or
  makes signals is not covered.
\<close>

datatype prog =
    Return val
  | Read sid "val \<Rightarrow> prog"
  | Write sid val prog
  | Push val prog
  | Throw

text \<open>An ownership scope is either a scope made by the user or a base computation.\<close>

datatype owner_ref = Scope nat | Comp nat

record sub =
  sub_fn :: fid
  sub_deps :: "sid list"
  sub_owner :: "owner_ref option"

record state =
  effectQueue :: "fid list"
  runningEffects :: bool
  effectDeps :: "(fid \<times> sid list) list"
  currentEffect :: fid
  effectTaskIsScheduled :: bool
  sigs :: "sid \<Rightarrow> val"
  subs :: "sub list"
  listener :: "sid list option"
  owner :: "owner_ref option"
  cleanups :: "(owner_ref \<times> fid) list"
  microtasks :: "owner_ref option list"
  out :: "val list"

datatype outcome = Ok state | Threw state

subsection \<open>Set and Map operations of the host language\<close>

text \<open>
  \<open>effectQueue\<close> is a JavaScript \<open>Set\<close>: it iterates in insertion order, \<open>add\<close> of a
  member changes nothing, \<open>delete\<close> removes the member. \<open>effectDeps\<close> is a \<open>Map\<close> from
  effects to \<open>Set\<close>s of writers, again in insertion order.
\<close>

definition set_add :: "'a \<Rightarrow> 'a list \<Rightarrow> 'a list" where
  "set_add x xs = (if x \<in> set xs then xs else xs @ [x])"

definition set_delete :: "'a \<Rightarrow> 'a list \<Rightarrow> 'a list" where
  "set_delete x xs = removeAll x xs"

fun map_get :: "('k \<times> 'v) list \<Rightarrow> 'k \<Rightarrow> 'v option" where
  "map_get [] k = None"
| "map_get ((k', v) # m) k = (if k' = k then Some v else map_get m k)"

fun map_set :: "'k \<Rightarrow> 'v \<Rightarrow> ('k \<times> 'v) list \<Rightarrow> ('k \<times> 'v) list" where
  "map_set k v [] = [(k, v)]"
| "map_set k v ((k', v') # m) = (if k' = k then (k, v) # m else (k', v') # map_set k v m)"

definition map_delete :: "'k \<Rightarrow> ('k \<times> 'v) list \<Rightarrow> ('k \<times> 'v) list" where
  "map_delete k m = filter (\<lambda>e. fst e \<noteq> k) m"

definition deps_of :: "state \<Rightarrow> fid \<Rightarrow> sid list" where
  "deps_of st f = (case map_get (effectDeps st) f of None \<Rightarrow> [] | Some ds \<Rightarrow> ds)"

subsection \<open>The wrapper passed to the base effect: later invocations (lines 94 to 110)\<close>

text \<open>
  \<open>effectQueue.add(fn)\<close>; nothing more while a flush runs or is scheduled; otherwise the
  flag is set and a microtask is queued that carries the scope \<open>getOwner()\<close> returns now.
\<close>

definition subsequent_run :: "fid \<Rightarrow> state \<Rightarrow> state" where
  "subsequent_run fn st =
     (let st1 = st\<lparr>effectQueue := set_add fn (effectQueue st)\<rparr> in
      if runningEffects st1 then st1
      else if effectTaskIsScheduled st1 then st1
      else st1\<lparr>effectTaskIsScheduled := True,
               microtasks := microtasks st1 @ [owner st1]\<rparr>)"

subsection \<open>The base reactive primitives\<close>

text \<open>
  The base signal, the base effect runner, the ownership scope and the microtask queue
  come from the reactive library that the module imports; they are not part of the
  repository. Their definitions here follow the contract that section 6 of the
  specification gives: a base signal is a plain cell; a base effect is invoked whenever a
  signal read during its previous run changes, synchronously and immediately (section 1);
  \<open>onCleanup\<close> registers a callback on the current scope; a microtask runs after the
  current synchronous block.
\<close>

text \<open>
  Modelled from the spec: the base reader \<open>_get\<close>. While a base computation runs,
  \<open>listener\<close> collects the signals it reads.
\<close>

definition base_get :: "sid \<Rightarrow> state \<Rightarrow> state" where
  "base_get s st =
     (case listener st of
        None \<Rightarrow> st
      | Some rs \<Rightarrow> st\<lparr>listener := Some (set_add s rs)\<rparr>)"

text \<open>
  Modelled from the spec: the base effect runner invokes the wrapper of computation \<open>i\<close>
  again. The signals of its previous run are dropped, and the computation is the
  ownership scope while its function runs. The closure variable \<open>initial\<close> is false here:
  the first invocation happened when the computation was created, so this is the path of
  lines 94 to 110, which reads no signal.
\<close>

definition rerun :: "nat \<Rightarrow> state \<Rightarrow> state" where
  "rerun i st =
     (if i < length (subs st)
      then let fn = sub_fn (subs st ! i);
               st1 = st\<lparr>subs := (subs st)[i := (subs st ! i)\<lparr>sub_deps := []\<rparr>],
                        owner := Some (Comp i)\<rparr>;
               st2 = subsequent_run fn st1
           in st2\<lparr>owner := owner st\<rparr>
      else st)"

text \<open>
  Modelled from the spec: the computations to invoke when signal \<open>s\<close> changes are those
  whose previous run read \<open>s\<close>, in the order of their creation.
\<close>

definition observers :: "sid \<Rightarrow> state \<Rightarrow> nat list" where
  "observers s st = filter (\<lambda>i. s \<in> set (sub_deps (subs st ! i))) [0..<length (subs st)]"

text \<open>
  Modelled from the spec: the base writer \<open>_set\<close>. A write that changes the value invokes
  the observers at once; a write of the value the cell holds changes nothing.
\<close>

definition base_set :: "sid \<Rightarrow> val \<Rightarrow> state \<Rightarrow> state" where
  "base_set s v st =
     (if sigs st s = v then st
      else fold rerun (observers s st) (st\<lparr>sigs := (sigs st)(s := v)\<rparr>))"

subsection \<open>The tracked signal (lines 27 to 59)\<close>

text \<open>
  The reader (lines 30 to 38): outside a flush it is the base reader; during a flush the
  writer is first added to the dependency set of \<open>currentEffect\<close>, which is created when
  absent.
\<close>

definition record_dep :: "sid \<Rightarrow> state \<Rightarrow> state" where
  "record_dep s st =
     (let ce = currentEffect st in
      case map_get (effectDeps st) ce of
        None \<Rightarrow> st\<lparr>effectDeps := effectDeps st @ [(ce, [s])]\<rparr>
      | Some deps \<Rightarrow> st\<lparr>effectDeps := map_set ce (set_add s deps) (effectDeps st)\<rparr>)"

definition get :: "sid \<Rightarrow> state \<Rightarrow> state" where
  "get s st =
     (if \<not> runningEffects st then base_get s st
      else base_get s (record_dep s st))"

text \<open>
  The writer (lines 40 to 56): outside a flush it is the base writer; during a flush it
  first walks the whole registry and, for each dependency equal to this writer, deletes
  the effect from the queue and adds it again (lines 45 to 53).
\<close>

definition move_to_end :: "fid \<Rightarrow> fid list \<Rightarrow> fid list" where
  "move_to_end fn q = set_add fn (set_delete fn q)"

definition scan_deps :: "sid \<Rightarrow> fid \<Rightarrow> sid list \<Rightarrow> fid list \<Rightarrow> fid list" where
  "scan_deps s fn deps q = fold (\<lambda>dep q. if dep = s then move_to_end fn q else q) deps q"

definition scan :: "sid \<Rightarrow> (fid \<times> sid list) list \<Rightarrow> fid list \<Rightarrow> fid list" where
  "scan s m q = fold (\<lambda>(fn, deps) q. scan_deps s fn deps q) m q"

definition reorder :: "sid \<Rightarrow> state \<Rightarrow> state" where
  "reorder s st = st\<lparr>effectQueue := scan s (effectDeps st) (effectQueue st)\<rparr>"

definition set_signal :: "sid \<Rightarrow> val \<Rightarrow> state \<Rightarrow> state" where
  "set_signal s v st =
     (if \<not> runningEffects st then base_set s v st
      else base_set s v (reorder s st))"

subsection \<open>Running the body of an effect\<close>

text \<open>
  The bodies of the user's functions are a parameter \<open>F\<close> of the model: \<open>F fn prev\<close> is
  the body of the function \<open>fn\<close> called with the argument \<open>prev\<close>. A read is the tracked
  reader of lines 30 to 38, a write the tracked writer of lines 40 to 56. An exception
  ends the run; the state it leaves is kept.
\<close>

primrec exec :: "prog \<Rightarrow> state \<Rightarrow> outcome" where
  "exec (Return v) = (\<lambda>st. Ok st)"
| "exec (Read s k) = (\<lambda>st. exec (k (sigs st s)) (get s st))"
| "exec (Write s v p) = (\<lambda>st. exec p (set_signal s v st))"
| "exec (Push v p) = (\<lambda>st. exec p (st\<lparr>out := out st @ [v]\<rparr>))"
| "exec Throw = (\<lambda>st. Threw st)"

subsection \<open>createDeferredEffect (lines 65 to 121)\<close>

definition clear_deps :: "fid \<Rightarrow> state \<Rightarrow> state" where
  "clear_deps fn st =
     (case map_get (effectDeps st) fn of
        None \<Rightarrow> st
      | Some deps \<Rightarrow> st\<lparr>effectDeps := map_set fn [] (effectDeps st)\<rparr>)"

text \<open>
  The first invocation of the wrapper (lines 84 to 92): \<open>currentEffect = fn\<close>, the
  dependency set of \<open>fn\<close> is emptied if it exists, and \<open>fn(prev)\<close> runs. The value that
  \<open>fn\<close> returns is dropped, the wrapper returns \<open>undefined\<close>.
\<close>

definition first_run :: "fid \<Rightarrow> state \<Rightarrow> state" where
  "first_run fn st = clear_deps fn (st\<lparr>currentEffect := fn\<rparr>)"

definition wrapper_initial :: "(fid \<Rightarrow> val \<Rightarrow> prog) \<Rightarrow> fid \<Rightarrow> val \<Rightarrow> state \<Rightarrow> outcome" where
  "wrapper_initial F fn prev st = exec (F fn prev) (first_run fn st)"

text \<open>
  Modelled from the spec: the base effect runner \<open>createEffect\<close>. It makes a new
  computation, owned by the current scope, and invokes the wrapper at once with the
  initial value; the computation is the scope and the listener during that run. When the
  run ends, the signals it read become the dependencies of the computation. An exception
  of the run passes through, scope and listener being restored.
\<close>

definition enter_computation :: "fid \<Rightarrow> state \<Rightarrow> state" where
  "enter_computation fn st =
     st\<lparr>subs := subs st @ [\<lparr>sub_fn = fn, sub_deps = [], sub_owner = owner st\<rparr>],
        owner := Some (Comp (length (subs st))),
        listener := Some []\<rparr>"

definition leave_computation :: "nat \<Rightarrow> state \<Rightarrow> state \<Rightarrow> state" where
  "leave_computation i st0 st =
     st\<lparr>subs := (subs st)[i := (subs st ! i)
                 \<lparr>sub_deps := (case listener st of None \<Rightarrow> [] | Some rs \<Rightarrow> rs)\<rparr>],
        owner := owner st0,
        listener := listener st0\<rparr>"

definition createEffect :: "(fid \<Rightarrow> val \<Rightarrow> prog) \<Rightarrow> fid \<Rightarrow> val \<Rightarrow> state \<Rightarrow> outcome" where
  "createEffect F fn v st =
     (case wrapper_initial F fn v (enter_computation fn st) of
        Threw st' \<Rightarrow> Threw (st'\<lparr>owner := owner st, listener := listener st\<rparr>)
      | Ok st' \<Rightarrow> Ok (leave_computation (length (subs st)) st st'))"

text \<open>
  Lines 116 to 120, \<open>getOwner() && onCleanup(...)\<close>: the cleanup callback of \<open>fn\<close> is
  registered on the current scope when there is one.
\<close>

definition onCleanup :: "fid \<Rightarrow> state \<Rightarrow> state" where
  "onCleanup fn st =
     (case owner st of
        None \<Rightarrow> st
      | Some ow \<Rightarrow> st\<lparr>cleanups := cleanups st @ [(ow, fn)]\<rparr>)"

definition createDeferredEffect ::
    "(fid \<Rightarrow> val \<Rightarrow> prog) \<Rightarrow> fid \<Rightarrow> val \<Rightarrow> state \<Rightarrow> outcome" where
  "createDeferredEffect F fn v st =
     (case createEffect F fn v st of
        Threw st' \<Rightarrow> Threw st'
      | Ok st' \<Rightarrow> Ok (onCleanup fn st'))"

subsection \<open>runEffects (lines 123 to 133)\<close>

text \<open>
  The loop \<open>for (const fn of effectQueue)\<close> iterates a \<open>Set\<close> that the body changes. Every
  member visited is deleted at once, and a member added during the iteration goes to the
  end, so the member visited next is always the first member of the set, and the loop
  ends when the set is empty. The replay \<open>createDeferredEffect(fn)\<close> passes no initial
  value: \<open>value\<close> is \<open>undefined\<close>. The loop need not end; \<open>None\<close> is a loop that runs
  forever.
\<close>

partial_function (option) run_queue :: "(fid \<Rightarrow> val \<Rightarrow> prog) \<Rightarrow> state \<Rightarrow> outcome option" where
  "run_queue F st =
     (case effectQueue st of
        [] \<Rightarrow> Some (Ok st)
      | fn # q \<Rightarrow>
          (case createDeferredEffect F fn Undefined
                  (st\<lparr>effectQueue := set_delete fn (effectQueue st)\<rparr>) of
             Threw st' \<Rightarrow> Some (Threw st')
           | Ok st' \<Rightarrow> run_queue F st'))"

definition runEffects :: "(fid \<Rightarrow> val \<Rightarrow> prog) \<Rightarrow> state \<Rightarrow> outcome option" where
  "runEffects F st =
     (case run_queue F (st\<lparr>runningEffects := True\<rparr>) of
        None \<Rightarrow> None
      | Some (Threw st') \<Rightarrow> Some (Threw st')
      | Some (Ok st') \<Rightarrow>
          Some (Ok (st'\<lparr>runningEffects := False, effectTaskIsScheduled := False\<rparr>)))"

text \<open>
  The first \<open>n\<close> iterations of the same loop, for statements about a flush that need not
  end: the effects replayed, in order, and the outcome so far (that of the whole loop if
  it ended or threw within \<open>n\<close> iterations).
\<close>

fun run_queue_steps :: "nat \<Rightarrow> (fid \<Rightarrow> val \<Rightarrow> prog) \<Rightarrow> state \<Rightarrow> fid list \<times> outcome" where
  "run_queue_steps 0 F st = ([], Ok st)"
| "run_queue_steps (Suc n) F st =
     (case effectQueue st of
        [] \<Rightarrow> ([], Ok st)
      | fn # q \<Rightarrow>
          (case createDeferredEffect F fn Undefined
                  (st\<lparr>effectQueue := set_delete fn (effectQueue st)\<rparr>) of
             Threw st' \<Rightarrow> ([fn], Threw st')
           | Ok st' \<Rightarrow> (fn # fst (run_queue_steps n F st'), snd (run_queue_steps n F st'))))"

subsection \<open>Microtasks and scopes\<close>

text \<open>
  Modelled from the spec: \<open>runWithOwner\<close> runs a function under a given scope, outside
  any listener, and restores both afterwards, also when the function throws.
\<close>

definition runWithOwner ::
    "owner_ref \<Rightarrow> (state \<Rightarrow> outcome option) \<Rightarrow> state \<Rightarrow> outcome option" where
  "runWithOwner ow f st =
     (case f (st\<lparr>owner := Some ow, listener := None\<rparr>) of
        None \<Rightarrow> None
      | Some (Threw st') \<Rightarrow> Some (Threw (st'\<lparr>owner := owner st, listener := listener st\<rparr>))
      | Some (Ok st') \<Rightarrow> Some (Ok (st'\<lparr>owner := owner st, listener := listener st\<rparr>)))"

text \<open>
  The microtask queued at lines 107 to 110; \<open>captured\<close> is the scope that line 105 read.
\<close>

definition flush_task :: "(fid \<Rightarrow> val \<Rightarrow> prog) \<Rightarrow> owner_ref option \<Rightarrow> state \<Rightarrow> outcome option" where
  "flush_task F captured st =
     (case captured of
        Some ow \<Rightarrow> runWithOwner ow (runEffects F) st
      | None \<Rightarrow> runEffects F st)"

text \<open>
  Modelled from the spec: the host runs the first queued microtask after the current
  synchronous block. Only the microtasks that this module queues are modelled.
\<close>

definition run_microtask :: "(fid \<Rightarrow> val \<Rightarrow> prog) \<Rightarrow> state \<Rightarrow> outcome option" where
  "run_microtask F st =
     (case microtasks st of
        [] \<Rightarrow> Some (Ok st)
      | captured # ms \<Rightarrow> flush_task F captured (st\<lparr>microtasks := ms\<rparr>))"

text \<open>The cleanup callback of lines 117 to 120.\<close>

definition cleanup_callback :: "fid \<Rightarrow> state \<Rightarrow> state" where
  "cleanup_callback fn st =
     st\<lparr>effectDeps := map_delete fn (effectDeps st),
        effectQueue := set_delete fn (effectQueue st)\<rparr>"

text \<open>
  Modelled from the spec: disposing a scope runs the cleanup callbacks registered on it
  and stops the computations it owns, which then listen to no signal.
\<close>

definition dispose :: "owner_ref \<Rightarrow> state \<Rightarrow> state" where
  "dispose ow st =
     (let cbs = map snd (filter (\<lambda>c. fst c = ow) (cleanups st));
          st1 = fold cleanup_callback cbs st
      in st1\<lparr>cleanups := filter (\<lambda>c. fst c \<noteq> ow) (cleanups st1),
             subs := map (\<lambda>sb. if sub_owner sb = Some ow then sb\<lparr>sub_deps := []\<rparr> else sb)
                       (subs st1)\<rparr>)"

text \<open>The state of a freshly loaded module; \<open>0\<close> names the initial \<open>() => {}\<close>.\<close>

definition init_state :: state where
  "init_state =
     \<lparr>effectQueue = [], runningEffects = False, effectDeps = [], currentEffect = 0,
      effectTaskIsScheduled = False, sigs = (\<lambda>_. Undefined), subs = [], listener = None,
      owner = None, cleanups = [], microtasks = [], out = []\<rparr>"

text \<open>
  \<open>createSignal(value)\<close> (line 28) makes a fresh cell; the identifier \<open>s\<close> stands for the
  new writer \<open>_set\<close>.
\<close>

definition createSignal :: "sid \<Rightarrow> val \<Rightarrow> state \<Rightarrow> state" where
  "createSignal s v st = st\<lparr>sigs := (sigs st)(s := v)\<rparr>"

subsection \<open>Observations on a run\<close>

fun outcome_state :: "outcome \<Rightarrow> state" where
  "outcome_state (Ok st) = st"
| "outcome_state (Threw st) = st"

text \<open>
  The state in which the body of \<open>fn\<close> starts when \<open>createDeferredEffect\<close> is called in
  state \<open>st\<close>: the computation exists, and lines 85 to 88 have run.
\<close>

definition body_start :: "fid \<Rightarrow> state \<Rightarrow> state" where
  "body_start fn st = first_run fn (enter_computation fn st)"

text \<open>The signals that the body \<open>p\<close> reads, in order, when it runs from state \<open>st\<close>.\<close>

primrec reads :: "prog \<Rightarrow> state \<Rightarrow> sid list" where
  "reads (Return v) = (\<lambda>st. [])"
| "reads (Read s k) = (\<lambda>st. s # reads (k (sigs st s)) (get s st))"
| "reads (Write s v p) = (\<lambda>st. reads p (set_signal s v st))"
| "reads (Push v p) = (\<lambda>st. reads p (st\<lparr>out := out st @ [v]\<rparr>))"
| "reads Throw = (\<lambda>st. [])"


text \<open>The state after the next microtask, and after a flush; unchanged if it never ends.\<close>

definition after_microtask :: "(fid \<Rightarrow> val \<Rightarrow> prog) \<Rightarrow> state \<Rightarrow> state" where
  "after_microtask F st =
     (case run_microtask F st of None \<Rightarrow> st | Some r \<Rightarrow> outcome_state r)"


subsection \<open>Invariants and relations used in the proofs\<close>

text \<open>
  A base computation keeps its function, and the signals it listens to only get fewer,
  until it runs again.
\<close>

definition shrunk :: "sub \<Rightarrow> sub \<Rightarrow> bool" where
  "shrunk a b = (sub_fn a = sub_fn b \<and> set (sub_deps a) \<subseteq> set (sub_deps b))"


text \<open>
  At most one flush microtask is pending, and while one is pending the flag
  \<open>effectTaskIsScheduled\<close> is set.
\<close>

definition single_flight :: "state \<Rightarrow> bool" where
  "single_flight st =
     (length (microtasks st) \<le> 1 \<and> (microtasks st = [] \<or> effectTaskIsScheduled st))"

subsection \<open>Scenarios\<close>

text \<open>
  An effect that reads signal \<open>s\<close> and pushes the value to the output list. Signal 1 starts
  at 1, the effect is registered, and signal 1 is written twice.
\<close>

definition logger :: "sid \<Rightarrow> fid \<Rightarrow> val \<Rightarrow> prog" where
  "logger s fn prev = Read s (\<lambda>v. Push v (Return Undefined))"

definition c1_registered :: state where
  "c1_registered =
     outcome_state (createDeferredEffect (logger 1) 1 Undefined
                      (createSignal 1 (Num 1) init_state))"

definition c1_written :: state where
  "c1_written = set_signal 1 (Num 3) (set_signal 1 (Num 2) c1_registered)"

text \<open>A state in the middle of a flush: effects 1 and 3 depend on signal 5.\<close>

definition c2_state :: state where
  "c2_state =
     init_state\<lparr>runningEffects := True, effectQueue := [3, 1, 4],
                effectDeps := [(1, [5]), (2, [6]), (3, [7, 5])], currentEffect := 3\<rparr>"

text \<open>
  An effect that pushes its argument, reads signal 1 and, when that is 1, signal 2, and
  returns 7. It is registered with initial value 0 and replayed in two flushes: the first
  after a write to signal 2, the second after signal 1 is set to 2. \<open>c3_loop_entry\<close> is the
  state in which the loop of the second flush starts, \<open>c3_replay_state\<close> the state in
  which it calls \<open>createDeferredEffect\<close>, \<open>c3_replayed\<close> the state after that call.
\<close>

definition branching :: "fid \<Rightarrow> val \<Rightarrow> prog" where
  "branching fn prev =
     Push prev (Read 1 (\<lambda>c. if c = Num 1 then Read 2 (\<lambda>x. Return (Num 7))
                              else Return (Num 7)))"

definition c3_registered :: state where
  "c3_registered =
     outcome_state (createDeferredEffect branching 1 (Num 0)
                      (createSignal 2 (Num 0) (createSignal 1 (Num 1) init_state)))"

definition c3_first_flush :: state where
  "c3_first_flush = after_microtask branching (set_signal 2 (Num 5) c3_registered)"

definition c3_second_write :: state where
  "c3_second_write = set_signal 1 (Num 2) c3_first_flush"

definition c3_second_flush :: state where
  "c3_second_flush = after_microtask branching c3_second_write"

definition c3_loop_entry :: state where
  "c3_loop_entry =
     c3_second_write\<lparr>microtasks := [], owner := Some (Comp 1), listener := None,
                      runningEffects := True\<rparr>"

definition c3_replay_state :: state where
  "c3_replay_state = c3_loop_entry\<lparr>effectQueue := set_delete 1 (effectQueue c3_loop_entry)\<rparr>"

definition c3_replayed :: state where
  "c3_replayed = outcome_state (createDeferredEffect branching 1 Undefined c3_replay_state)"





text \<open>
  Effect 1 is registered twice, with initial values 1 and 2: the first registration reads
  signal 1, the second signal 2. Effect 2 reads signal 3. Signals 1 and 3 are written.
\<close>

definition two_faced :: "fid \<Rightarrow> val \<Rightarrow> prog" where
  "two_faced fn prev =
     (if fn = 1
      then (if prev = Num 1 then Read 1 (\<lambda>v. Return Undefined)
            else Read 2 (\<lambda>v. Return Undefined))
      else Read 3 (\<lambda>v. Return Undefined))"

definition c6_registered :: state where
  "c6_registered =
     outcome_state (createDeferredEffect two_faced 2 Undefined
       (outcome_state (createDeferredEffect two_faced 1 (Num 2)
          (outcome_state (createDeferredEffect two_faced 1 (Num 1)
             (createSignal 3 (Num 0) (createSignal 2 (Num 0)
                (createSignal 1 (Num 0) init_state))))))))"

definition c6_two_queued :: state where
  "c6_two_queued = set_signal 3 (Num 5) (set_signal 1 (Num 5) c6_registered)"

text \<open>
  Effect 1 of \<open>two_faced\<close> is registered twice, reading signal 1 in its first registration
  and signal 2 in its second. Signal 2 is written and the microtask replays effect 1;
  \<open>c7_replay_state\<close> is the state in which the loop calls the replay.
\<close>

definition c7_registered :: state where
  "c7_registered =
     outcome_state (createDeferredEffect two_faced 1 (Num 2)
       (outcome_state (createDeferredEffect two_faced 1 (Num 1)
          (createSignal 2 (Num 0) (createSignal 1 (Num 0) init_state)))))"

definition c7_written :: state where
  "c7_written = set_signal 2 (Num 5) c7_registered"

definition c7_replay_state :: state where
  "c7_replay_state =
     c7_written\<lparr>microtasks := [], owner := Some (Comp 1), listener := None,
                 runningEffects := True, effectQueue := set_delete 1 (effectQueue c7_written)\<rparr>"

definition c7_replayed :: state where
  "c7_replayed = outcome_state (createDeferredEffect two_faced 1 Undefined c7_replay_state)"

definition c7_flushed :: state where
  "c7_flushed = after_microtask two_faced c7_written"

text \<open>
  Effect 1 reads signal 1 and throws unless it is 1; effect 2 reads signal 1 and pushes
  it. Both are registered, signal 1 is set to 2, and the microtask runs.
\<close>

definition thrower :: "fid \<Rightarrow> val \<Rightarrow> prog" where
  "thrower fn prev =
     (if fn = 1
      then Read 1 (\<lambda>v. if v = Num 1 then Return Undefined else Throw)
      else Read 1 (\<lambda>v. Push v (Return Undefined)))"

definition c8_written :: state where
  "c8_written =
     set_signal 1 (Num 2)
       (outcome_state (createDeferredEffect thrower 2 Undefined
          (outcome_state (createDeferredEffect thrower 1 Undefined
             (createSignal 1 (Num 1) init_state)))))"

definition c8_loop_entry :: state where
  "c8_loop_entry =
     c8_written\<lparr>microtasks := [], owner := Some (Comp 0), listener := None,
                 runningEffects := True\<rparr>"

definition c8_thrown :: state where
  "c8_thrown = after_microtask thrower c8_written"














section \<open>Properties\<close>

subsection \<open>Auxiliary facts\<close>

lemma set_add_set [simp]: "set (set_add x xs) = insert x (set xs)"
  by (auto simp: set_add_def)

lemma set_delete_set [simp]: "set (set_delete x xs) = set xs - {x}"
  by (simp add: set_delete_def)

lemma move_to_end_eq: "move_to_end fn q = removeAll fn q @ [fn]"
  by (simp add: move_to_end_def set_add_def set_delete_def)

lemma subs_update_fn:
  "map sub_fn (xs[i := (xs ! i)\<lparr>sub_deps := ds\<rparr>]) = map sub_fn xs"
  by (cases "i < length xs") (simp_all add: map_update list_update_same_conv list_update_beyond)

lemma subsequent_run_fields [simp]:
  "runningEffects (subsequent_run fn st) = runningEffects st"
  "currentEffect (subsequent_run fn st) = currentEffect st"
  "effectDeps (subsequent_run fn st) = effectDeps st"
  "subs (subsequent_run fn st) = subs st"
  "owner (subsequent_run fn st) = owner st"
  "listener (subsequent_run fn st) = listener st"
  "cleanups (subsequent_run fn st) = cleanups st"
  "sigs (subsequent_run fn st) = sigs st"
  "out (subsequent_run fn st) = out st"
  "effectQueue (subsequent_run fn st) = set_add fn (effectQueue st)"
  by (simp_all add: subsequent_run_def Let_def)

lemma subsequent_run_running:
  "runningEffects st \<Longrightarrow> subsequent_run fn st = st\<lparr>effectQueue := set_add fn (effectQueue st)\<rparr>"
  by (simp add: subsequent_run_def Let_def)

lemma rerun_fields [simp]:
  "runningEffects (rerun i st) = runningEffects st"
  "currentEffect (rerun i st) = currentEffect st"
  "effectDeps (rerun i st) = effectDeps st"
  "owner (rerun i st) = owner st"
  "listener (rerun i st) = listener st"
  "cleanups (rerun i st) = cleanups st"
  "sigs (rerun i st) = sigs st"
  "out (rerun i st) = out st"
  "length (subs (rerun i st)) = length (subs st)"
  "map sub_fn (subs (rerun i st)) = map sub_fn (subs st)"
  by (simp_all add: rerun_def Let_def subs_update_fn)

lemma rerun_queue:
  "effectQueue (rerun i st) =
     (if i < length (subs st) then set_add (sub_fn (subs st ! i)) (effectQueue st)
      else effectQueue st)"
  by (simp add: rerun_def Let_def)

lemma rerun_flags_running:
  "runningEffects st \<Longrightarrow> effectTaskIsScheduled (rerun i st) = effectTaskIsScheduled st
     \<and> microtasks (rerun i st) = microtasks st"
  by (simp add: rerun_def Let_def subsequent_run_def)

lemma fold_rerun_fields [simp]:
  "runningEffects (fold rerun is st) = runningEffects st"
  "currentEffect (fold rerun is st) = currentEffect st"
  "effectDeps (fold rerun is st) = effectDeps st"
  "owner (fold rerun is st) = owner st"
  "listener (fold rerun is st) = listener st"
  "cleanups (fold rerun is st) = cleanups st"
  "sigs (fold rerun is st) = sigs st"
  "out (fold rerun is st) = out st"
  "length (subs (fold rerun is st)) = length (subs st)"
  "map sub_fn (subs (fold rerun is st)) = map sub_fn (subs st)"
  by (induction "is" arbitrary: st; simp)+

lemma fold_rerun_flags_running:
  "runningEffects st \<Longrightarrow> effectTaskIsScheduled (fold rerun is st) = effectTaskIsScheduled st
     \<and> microtasks (fold rerun is st) = microtasks st"
  by (induction "is" arbitrary: st) (simp_all add: rerun_flags_running)

lemma fold_rerun_queue_mono: "set (effectQueue st) \<subseteq> set (effectQueue (fold rerun is st))"
proof (induction "is" arbitrary: st)
  case Nil
  then show ?case by simp
next
  case (Cons i "is")
  have "set (effectQueue st) \<subseteq> set (effectQueue (rerun i st))"
    by (auto simp: rerun_queue)
  also have "\<dots> \<subseteq> set (effectQueue (fold rerun is (rerun i st)))" by (rule Cons.IH)
  finally show ?case by simp
qed

lemma base_set_fields [simp]:
  "runningEffects (base_set s v st) = runningEffects st"
  "currentEffect (base_set s v st) = currentEffect st"
  "effectDeps (base_set s v st) = effectDeps st"
  "owner (base_set s v st) = owner st"
  "listener (base_set s v st) = listener st"
  "cleanups (base_set s v st) = cleanups st"
  "out (base_set s v st) = out st"
  "length (subs (base_set s v st)) = length (subs st)"
  "map sub_fn (subs (base_set s v st)) = map sub_fn (subs st)"
  by (simp_all add: base_set_def)

lemma base_set_flags_running:
  "runningEffects st \<Longrightarrow> effectTaskIsScheduled (base_set s v st) = effectTaskIsScheduled st
     \<and> microtasks (base_set s v st) = microtasks st"
  by (simp add: base_set_def fold_rerun_flags_running)

lemma base_set_queue_mono: "set (effectQueue st) \<subseteq> set (effectQueue (base_set s v st))"
  using fold_rerun_queue_mono [of "st\<lparr>sigs := (sigs st)(s := v)\<rparr>" "observers s st"]
  by (simp add: base_set_def)

lemma reorder_fields [simp]:
  "runningEffects (reorder s st) = runningEffects st"
  "currentEffect (reorder s st) = currentEffect st"
  "effectDeps (reorder s st) = effectDeps st"
  "owner (reorder s st) = owner st"
  "listener (reorder s st) = listener st"
  "cleanups (reorder s st) = cleanups st"
  "out (reorder s st) = out st"
  "subs (reorder s st) = subs st"
  "sigs (reorder s st) = sigs st"
  "effectTaskIsScheduled (reorder s st) = effectTaskIsScheduled st"
  "microtasks (reorder s st) = microtasks st"
  by (simp_all add: reorder_def)

lemma scan_deps_eq:
  "scan_deps s fn deps q = (if s \<in> set deps then removeAll fn q @ [fn] else q)"
proof (induction deps arbitrary: q)
  case Nil
  then show ?case by (simp add: scan_deps_def)
next
  case (Cons d deps)
  have "scan_deps s fn (d # deps) q =
          scan_deps s fn deps (if d = s then move_to_end fn q else q)"
    by (simp add: scan_deps_def)
  then show ?case
    by (simp add: Cons.IH move_to_end_eq)
qed

lemma scan_Nil [simp]: "scan s [] q = q"
  by (simp add: scan_def)

lemma scan_Cons [simp]:
  "scan s ((fn, deps) # m) q = scan s m (if s \<in> set deps then removeAll fn q @ [fn] else q)"
  by (simp add: scan_def scan_deps_eq)

lemma scan_set: "set (scan s m q) = set q \<union> {fn. \<exists>deps. (fn, deps) \<in> set m \<and> s \<in> set deps}"
  by (induction m arbitrary: q) (auto split: if_splits)

lemma map_get_Some_mem: "map_get m k = Some v \<Longrightarrow> (k, v) \<in> set m"
  by (induction m) (auto split: if_splits)

lemma map_get_distinct: "distinct (map fst m) \<Longrightarrow> (k, v) \<in> set m \<Longrightarrow> map_get m k = Some v"
  by (induction m) (auto simp: rev_image_eqI)

lemma map_get_None: "(map_get m k = None) = (k \<notin> fst ` set m)"
  by (induction m) (auto split: if_splits)

lemma scan_eq:
  "distinct (map fst m) \<Longrightarrow>
   scan s m q =
     filter (\<lambda>fn. \<not> (\<exists>deps. (fn, deps) \<in> set m \<and> s \<in> set deps)) q
       @ map fst (filter (\<lambda>e. s \<in> set (snd e)) m)"
proof (induction m arbitrary: q)
  case Nil
  then show ?case by simp
next
  case (Cons e m)
  obtain fn deps where e: "e = (fn, deps)" by (cases e)
  from Cons.prems e have fresh: "fn \<notin> fst ` set m" and dist: "distinct (map fst m)"
    by simp_all
  from fresh have nodep: "\<And>ds. (fn, ds) \<notin> set m"
    by (auto simp: image_iff)
  show ?case
  proof (cases "s \<in> set deps")
    case True
    have "filter (\<lambda>g. \<not> (\<exists>ds. (g, ds) \<in> set m \<and> s \<in> set ds)) (removeAll fn q)
            = filter (\<lambda>g. \<not> (\<exists>ds. (g, ds) \<in> set (e # m) \<and> s \<in> set ds)) q"
      using True e by (induction q) auto
    with True show ?thesis
      using Cons.IH [OF dist, of "removeAll fn q @ [fn]"] e nodep by simp
  next
    case False
    have "filter (\<lambda>g. \<not> (\<exists>ds. (g, ds) \<in> set m \<and> s \<in> set ds)) q
            = filter (\<lambda>g. \<not> (\<exists>ds. (g, ds) \<in> set (e # m) \<and> s \<in> set ds)) q"
      using False e by (induction q) auto
    with False show ?thesis
      using Cons.IH [OF dist, of q] e by simp
  qed
qed

lemma deps_of_mem:
  "distinct (map fst (effectDeps st)) \<Longrightarrow>
   (\<exists>deps. (fn, deps) \<in> set (effectDeps st) \<and> s \<in> set deps) = (s \<in> set (deps_of st fn))"
proof (cases "map_get (effectDeps st) fn")
  case None
  then have "\<And>deps. (fn, deps) \<notin> set (effectDeps st)"
    by (auto simp: map_get_None image_iff)
  with None show ?thesis by (simp add: deps_of_def)
next
  case (Some ds)
  assume dist: "distinct (map fst (effectDeps st))"
  have "deps = ds" if "(fn, deps) \<in> set (effectDeps st)" for deps
    using map_get_distinct [OF dist that] Some by simp
  moreover have "(fn, ds) \<in> set (effectDeps st)"
    by (rule map_get_Some_mem [OF Some])
  ultimately have "\<And>deps. ((fn, deps) \<in> set (effectDeps st)) = (deps = ds)"
    by blast
  with Some show ?thesis by (simp add: deps_of_def)
qed

lemma get_fields [simp]:
  "runningEffects (get s st) = runningEffects st"
  "currentEffect (get s st) = currentEffect st"
  "effectQueue (get s st) = effectQueue st"
  "owner (get s st) = owner st"
  "cleanups (get s st) = cleanups st"
  "out (get s st) = out st"
  "subs (get s st) = subs st"
  "sigs (get s st) = sigs st"
  "effectTaskIsScheduled (get s st) = effectTaskIsScheduled st"
  "microtasks (get s st) = microtasks st"
  by (simp_all add: get_def base_get_def record_dep_def Let_def split: option.splits)

lemma set_signal_fields [simp]:
  "runningEffects (set_signal s v st) = runningEffects st"
  "currentEffect (set_signal s v st) = currentEffect st"
  "effectDeps (set_signal s v st) = effectDeps st"
  "owner (set_signal s v st) = owner st"
  "listener (set_signal s v st) = listener st"
  "cleanups (set_signal s v st) = cleanups st"
  "out (set_signal s v st) = out st"
  "length (subs (set_signal s v st)) = length (subs st)"
  "map sub_fn (subs (set_signal s v st)) = map sub_fn (subs st)"
  by (simp_all add: set_signal_def)

lemma set_signal_flags_running:
  "runningEffects st \<Longrightarrow> effectTaskIsScheduled (set_signal s v st) = effectTaskIsScheduled st
     \<and> microtasks (set_signal s v st) = microtasks st"
  by (simp add: set_signal_def base_set_flags_running)

lemma reorder_queue_mono: "set (effectQueue st) \<subseteq> set (effectQueue (reorder s st))"
  by (auto simp: reorder_def scan_set)

lemma set_signal_queue_mono: "set (effectQueue st) \<subseteq> set (effectQueue (set_signal s v st))"
  using base_set_queue_mono [of st s v] base_set_queue_mono [of "reorder s st" s v]
    reorder_queue_mono [of st s]
  by (auto simp: set_signal_def)

lemma exec_fields:
  "runningEffects (outcome_state (exec p st)) = runningEffects st \<and>
   currentEffect (outcome_state (exec p st)) = currentEffect st \<and>
   owner (outcome_state (exec p st)) = owner st \<and>
   cleanups (outcome_state (exec p st)) = cleanups st \<and>
   length (subs (outcome_state (exec p st))) = length (subs st) \<and>
   map sub_fn (subs (outcome_state (exec p st))) = map sub_fn (subs st)"
  by (induction p arbitrary: st) simp_all

lemma exec_flags_running:
  "runningEffects st \<Longrightarrow>
   effectTaskIsScheduled (outcome_state (exec p st)) = effectTaskIsScheduled st \<and>
   microtasks (outcome_state (exec p st)) = microtasks st"
  by (induction p arbitrary: st) (simp_all add: set_signal_flags_running)

lemma exec_queue_mono:
  "set (effectQueue st) \<subseteq> set (effectQueue (outcome_state (exec p st)))"
proof (induction p arbitrary: st)
  case (Write s v p)
  have "set (effectQueue st) \<subseteq> set (effectQueue (set_signal s v st))"
    by (rule set_signal_queue_mono)
  also have "\<dots> \<subseteq> set (effectQueue (outcome_state (exec p (set_signal s v st))))"
    by (rule Write.IH)
  finally show ?case by simp
next
  case (Read s k)
  have "set (effectQueue (get s st))
          \<subseteq> set (effectQueue (outcome_state (exec (k (sigs st s)) (get s st))))"
    by (rule Read.IH) simp
  then show ?case by simp
next
  case (Push v p)
  from Push.IH [of "st\<lparr>out := out st @ [v]\<rparr>"] show ?case by simp
qed simp_all

lemma deps_of_entry:
  "distinct (map fst (effectDeps st)) \<Longrightarrow> e \<in> set (effectDeps st) \<Longrightarrow>
   deps_of st (fst e) = snd e"
  by (cases e) (simp add: deps_of_def map_get_distinct)

lemma map_get_map_set: "map_get (map_set k v m) k' = (if k' = k then Some v else map_get m k')"
  by (induction m) auto

lemma map_get_append:
  "map_get (m @ [(k, v)]) k' =
     (case map_get m k' of Some x \<Rightarrow> Some x | None \<Rightarrow> if k = k' then Some v else None)"
  by (induction m) auto

lemma map_set_keys:
  "map fst (map_set k v m) = (if k \<in> fst ` set m then map fst m else map fst m @ [k])"
  by (induction m) force+

lemma record_dep_fields [simp]:
  "runningEffects (record_dep s st) = runningEffects st"
  "currentEffect (record_dep s st) = currentEffect st"
  "listener (record_dep s st) = listener st"
  by (simp_all add: record_dep_def Let_def split: option.splits)

lemma record_dep_other:
  "g \<noteq> currentEffect st \<Longrightarrow>
   map_get (effectDeps (record_dep s st)) g = map_get (effectDeps st) g"
  by (simp add: record_dep_def Let_def map_get_map_set map_get_append split: option.splits)

lemma record_dep_current:
  "set (deps_of (record_dep s st) (currentEffect st)) =
     insert s (set (deps_of st (currentEffect st)))"
  by (auto simp: record_dep_def deps_of_def Let_def map_get_map_set map_get_append
      split: option.splits)

lemma record_dep_distinct:
  "distinct (map fst (effectDeps st)) \<Longrightarrow> distinct (map fst (effectDeps (record_dep s st)))"
  by (auto simp: record_dep_def Let_def map_set_keys map_get_None split: option.splits)

lemma get_deps:
  "listener (get s st) = (case listener st of None \<Rightarrow> None | Some rs \<Rightarrow> Some (set_add s rs))"
  "\<not> runningEffects st \<Longrightarrow> effectDeps (get s st) = effectDeps st"
  "g \<noteq> currentEffect st \<Longrightarrow> map_get (effectDeps (get s st)) g = map_get (effectDeps st) g"
  "runningEffects st \<Longrightarrow>
     set (deps_of (get s st) (currentEffect st)) = insert s (set (deps_of st (currentEffect st)))"
  "distinct (map fst (effectDeps st)) \<Longrightarrow> distinct (map fst (effectDeps (get s st)))"
  using record_dep_current [of s st] record_dep_distinct [of st s]
  by (simp_all add: get_def base_get_def record_dep_other deps_of_def split: option.splits)

lemma deps_of_cong: "effectDeps st' = effectDeps st \<Longrightarrow> deps_of st' = deps_of st"
  by (rule ext) (simp add: deps_of_def)

lemma exec_deps_other:
  "g \<noteq> currentEffect st \<Longrightarrow>
   map_get (effectDeps (outcome_state (exec p st))) g = map_get (effectDeps st) g"
  by (induction p arbitrary: st) (simp_all add: get_deps)

lemma exec_deps_idle:
  "\<not> runningEffects st \<Longrightarrow> effectDeps (outcome_state (exec p st)) = effectDeps st"
  by (induction p arbitrary: st) (simp_all add: get_deps)

lemma exec_deps_distinct:
  "distinct (map fst (effectDeps st)) \<Longrightarrow>
   distinct (map fst (effectDeps (outcome_state (exec p st))))"
  by (induction p arbitrary: st) (simp_all add: get_deps)

lemma exec_deps_current:
  "runningEffects st \<Longrightarrow>
   set (deps_of (outcome_state (exec p st)) (currentEffect st)) =
     set (deps_of st (currentEffect st)) \<union> set (reads p st)"
proof (induction p arbitrary: st)
  case (Read s k)
  have "set (deps_of (outcome_state (exec (k (sigs st s)) (get s st))) (currentEffect (get s st)))
          = set (deps_of (get s st) (currentEffect (get s st)))
              \<union> set (reads (k (sigs st s)) (get s st))"
    by (rule Read.IH) (simp_all add: Read.prems)
  then show ?case using Read.prems by (simp add: get_deps)
next
  case (Write s v p)
  from Write.IH [of "set_signal s v st"] Write.prems show ?case
    by (simp add: deps_of_cong [of "set_signal s v st" st])
next
  case (Push v p)
  from Push.IH [of "st\<lparr>out := out st @ [v]\<rparr>"] Push.prems show ?case
    by (simp add: deps_of_cong [of "st\<lparr>out := out st @ [v]\<rparr>" st])
qed simp_all

lemma exec_listener:
  "listener st = Some rs \<Longrightarrow>
   \<exists>rs'. listener (outcome_state (exec p st)) = Some rs' \<and> set rs' = set rs \<union> set (reads p st)"
proof (induction p arbitrary: st rs)
  case (Read s k)
  have "listener (get s st) = Some (set_add s rs)"
    using Read.prems by (simp add: get_deps)
  from Read.IH [OF _ this, of "k (sigs st s)"] show ?case by auto
next
  case (Write s v p)
  from Write.IH [of "set_signal s v st" rs] Write.prems show ?case by simp
next
  case (Push v p)
  from Push.IH [of "st\<lparr>out := out st @ [v]\<rparr>" rs] Push.prems show ?case by simp
qed simp_all

lemma first_run_fields [simp]:
  "runningEffects (first_run fn st) = runningEffects st"
  "currentEffect (first_run fn st) = fn"
  "effectQueue (first_run fn st) = effectQueue st"
  "owner (first_run fn st) = owner st"
  "listener (first_run fn st) = listener st"
  "cleanups (first_run fn st) = cleanups st"
  "subs (first_run fn st) = subs st"
  "sigs (first_run fn st) = sigs st"
  "out (first_run fn st) = out st"
  "effectTaskIsScheduled (first_run fn st) = effectTaskIsScheduled st"
  "microtasks (first_run fn st) = microtasks st"
  by (simp_all add: first_run_def clear_deps_def split: option.splits)

lemma first_run_deps:
  "deps_of (first_run fn st) fn = []"
  "g \<noteq> fn \<Longrightarrow> map_get (effectDeps (first_run fn st)) g = map_get (effectDeps st) g"
  "map fst (effectDeps (first_run fn st)) = map fst (effectDeps st)"
  by (auto simp: first_run_def clear_deps_def deps_of_def map_get_map_set map_set_keys
      map_get_None [symmetric] split: option.splits)

lemma body_start_fields [simp]:
  "runningEffects (body_start fn st) = runningEffects st"
  "currentEffect (body_start fn st) = fn"
  "effectQueue (body_start fn st) = effectQueue st"
  "owner (body_start fn st) = Some (Comp (length (subs st)))"
  "listener (body_start fn st) = Some []"
  "cleanups (body_start fn st) = cleanups st"
  "subs (body_start fn st) = subs st @ [\<lparr>sub_fn = fn, sub_deps = [], sub_owner = owner st\<rparr>]"
  "sigs (body_start fn st) = sigs st"
  "out (body_start fn st) = out st"
  "effectTaskIsScheduled (body_start fn st) = effectTaskIsScheduled st"
  "microtasks (body_start fn st) = microtasks st"
  by (simp_all add: body_start_def enter_computation_def)

lemma body_start_deps:
  "deps_of (body_start fn st) fn = []"
  "g \<noteq> fn \<Longrightarrow> map_get (effectDeps (body_start fn st)) g = map_get (effectDeps st) g"
  "map fst (effectDeps (body_start fn st)) = map fst (effectDeps st)"
  by (simp_all add: body_start_def first_run_deps enter_computation_def)

lemma body_start_effectDeps: "effectDeps (body_start fn st) = effectDeps (first_run fn st)"
  by (simp add: body_start_def first_run_def clear_deps_def enter_computation_def
      split: option.splits)

lemma createDeferredEffect_Ok:
  "createDeferredEffect F fn v st = Ok st' \<Longrightarrow>
   \<exists>st''. exec (F fn v) (body_start fn st) = Ok st'' \<and>
          st' = onCleanup fn (leave_computation (length (subs st)) st st'')"
  by (auto simp: createDeferredEffect_def createEffect_def wrapper_initial_def body_start_def
      split: outcome.splits)

lemma createDeferredEffect_Threw:
  "createDeferredEffect F fn v st = Threw st' \<Longrightarrow>
   \<exists>st''. exec (F fn v) (body_start fn st) = Threw st'' \<and>
          st' = st''\<lparr>owner := owner st, listener := listener st\<rparr>"
  by (auto simp: createDeferredEffect_def createEffect_def wrapper_initial_def body_start_def
      split: outcome.splits)

lemma onCleanup_fields [simp]:
  "runningEffects (onCleanup fn st) = runningEffects st"
  "currentEffect (onCleanup fn st) = currentEffect st"
  "effectQueue (onCleanup fn st) = effectQueue st"
  "effectDeps (onCleanup fn st) = effectDeps st"
  "owner (onCleanup fn st) = owner st"
  "listener (onCleanup fn st) = listener st"
  "subs (onCleanup fn st) = subs st"
  "sigs (onCleanup fn st) = sigs st"
  "out (onCleanup fn st) = out st"
  "effectTaskIsScheduled (onCleanup fn st) = effectTaskIsScheduled st"
  "microtasks (onCleanup fn st) = microtasks st"
  "cleanups (onCleanup fn st) =
     (case owner st of None \<Rightarrow> cleanups st | Some ow \<Rightarrow> cleanups st @ [(ow, fn)])"
  by (simp_all add: onCleanup_def split: option.splits)

lemma leave_computation_fields [simp]:
  "runningEffects (leave_computation i st0 st) = runningEffects st"
  "currentEffect (leave_computation i st0 st) = currentEffect st"
  "effectQueue (leave_computation i st0 st) = effectQueue st"
  "effectDeps (leave_computation i st0 st) = effectDeps st"
  "owner (leave_computation i st0 st) = owner st0"
  "listener (leave_computation i st0 st) = listener st0"
  "cleanups (leave_computation i st0 st) = cleanups st"
  "sigs (leave_computation i st0 st) = sigs st"
  "out (leave_computation i st0 st) = out st"
  "effectTaskIsScheduled (leave_computation i st0 st) = effectTaskIsScheduled st"
  "microtasks (leave_computation i st0 st) = microtasks st"
  "length (subs (leave_computation i st0 st)) = length (subs st)"
  "map sub_fn (subs (leave_computation i st0 st)) = map sub_fn (subs st)"
  by (simp_all add: leave_computation_def subs_update_fn)

lemma createDeferredEffect_fields:
  assumes "st' = outcome_state (createDeferredEffect F fn v st)"
  shows "runningEffects st' = runningEffects st"
    and "currentEffect st' = fn"
    and "owner st' = owner st"
    and "listener st' = listener st"
    and "map sub_fn (subs st') = map sub_fn (subs st) @ [fn]"
    and "set (effectQueue st) \<subseteq> set (effectQueue st')"
    and "runningEffects st \<Longrightarrow> effectTaskIsScheduled st' = effectTaskIsScheduled st"
    and "runningEffects st \<Longrightarrow> microtasks st' = microtasks st"
    and "g \<noteq> fn \<Longrightarrow> map_get (effectDeps st') g = map_get (effectDeps st) g"
    and "distinct (map fst (effectDeps st)) \<Longrightarrow> distinct (map fst (effectDeps st'))"
proof -
  let ?b = "body_start fn st"
  define st'' where "st'' = outcome_state (exec (F fn v) ?b)"
  have st': "st' = onCleanup fn (leave_computation (length (subs st)) st st'') \<or>
             st' = st''\<lparr>owner := owner st, listener := listener st\<rparr>"
    using assms
    by (cases "exec (F fn v) ?b")
      (simp_all add: st''_def createDeferredEffect_def createEffect_def wrapper_initial_def
        body_start_def)
  note f = exec_fields [of "F fn v" ?b, folded st''_def]
  show "runningEffects st' = runningEffects st"
    using f st' by auto
  show "currentEffect st' = fn"
    using f st' by auto
  show "owner st' = owner st"
    using st' by auto
  show "listener st' = listener st"
    using st' by auto
  show "map sub_fn (subs st') = map sub_fn (subs st) @ [fn]"
    using f st' by auto
  show "set (effectQueue st) \<subseteq> set (effectQueue st')"
    using exec_queue_mono [of ?b "F fn v", folded st''_def] st' by auto
  show "effectTaskIsScheduled st' = effectTaskIsScheduled st" if "runningEffects st"
    using exec_flags_running [of ?b "F fn v", folded st''_def] that st' by auto
  show "microtasks st' = microtasks st" if "runningEffects st"
    using exec_flags_running [of ?b "F fn v", folded st''_def] that st' by auto
  show "map_get (effectDeps st') g = map_get (effectDeps st) g" if "g \<noteq> fn"
    using exec_deps_other [of g ?b "F fn v", folded st''_def] that st'
    by (auto simp: body_start_deps)
  show "distinct (map fst (effectDeps st'))" if "distinct (map fst (effectDeps st))"
    using exec_deps_distinct [of ?b "F fn v", folded st''_def] that st'
    by (auto simp: body_start_deps)
qed

lemma createDeferredEffect_tracked:
  assumes "createDeferredEffect F fn v st = Ok st'"
  shows "runningEffects st \<Longrightarrow> set (deps_of st' fn) = set (reads (F fn v) (body_start fn st))"
    and "\<not> runningEffects st \<Longrightarrow> effectDeps st' = effectDeps (first_run fn st)"
    and "set (sub_deps (subs st' ! length (subs st))) = set (reads (F fn v) (body_start fn st))"
    and "cleanups st' =
           (case owner st of None \<Rightarrow> cleanups st | Some ow \<Rightarrow> cleanups st @ [(ow, fn)])"
proof -
  let ?b = "body_start fn st"
  from createDeferredEffect_Ok [OF assms] obtain st'' where
    ex: "exec (F fn v) ?b = Ok st''" and
    st': "st' = onCleanup fn (leave_computation (length (subs st)) st st'')"
    by blast
  have os: "outcome_state (exec (F fn v) ?b) = st''" by (simp add: ex)
  note f = exec_fields [of "F fn v" ?b, unfolded os]
  show "set (deps_of st' fn) = set (reads (F fn v) ?b)" if "runningEffects st"
    using exec_deps_current [of ?b "F fn v"] that
    by (simp add: os st' body_start_deps
        deps_of_cong [of "onCleanup fn (leave_computation (length (subs st)) st st'')" st''])
  show "effectDeps st' = effectDeps (first_run fn st)" if "\<not> runningEffects st"
    using exec_deps_idle [of ?b "F fn v"] that
    by (simp add: os st' body_start_effectDeps)
  from exec_listener [of ?b "[]" "F fn v"] obtain rs' where
    rs': "listener st'' = Some rs'" "set rs' = set (reads (F fn v) ?b)"
    by (auto simp: os)
  have len: "length (subs st'') = Suc (length (subs st))"
    using f by simp
  show "set (sub_deps (subs st' ! length (subs st))) = set (reads (F fn v) ?b)"
    using rs' len by (simp add: st' leave_computation_def)
  show "cleanups st' =
          (case owner st of None \<Rightarrow> cleanups st | Some ow \<Rightarrow> cleanups st @ [(ow, fn)])"
    using f by (simp add: st' split: option.splits)
qed

lemma rerun_sub_fn:
  "j < length (subs st) \<Longrightarrow> sub_fn (subs (rerun i st) ! j) = sub_fn (subs st ! j)"
  using rerun_fields(10) [of i st] by (metis length_map nth_map rerun_fields(9))

lemma fold_rerun_queue:
  "\<forall>i\<in>set is. i < length (subs st) \<Longrightarrow>
   set (effectQueue (fold rerun is st)) =
     set (effectQueue st) \<union> (\<lambda>i. sub_fn (subs st ! i)) ` set is"
proof (induction "is" arbitrary: st)
  case Nil
  then show ?case by simp
next
  case (Cons i "is")
  have "\<forall>j\<in>set is. j < length (subs (rerun i st))"
    using Cons.prems by simp
  from Cons.IH [OF this]
  have "set (effectQueue (fold rerun is (rerun i st))) =
          set (effectQueue (rerun i st)) \<union> (\<lambda>j. sub_fn (subs (rerun i st) ! j)) ` set is"
    .
  moreover have "(\<lambda>j. sub_fn (subs (rerun i st) ! j)) ` set is
                   = (\<lambda>j. sub_fn (subs st ! j)) ` set is"
    using Cons.prems by (intro image_cong) (simp_all add: rerun_sub_fn)
  ultimately show ?case using Cons.prems by (auto simp: rerun_queue)
qed

lemma base_set_queue:
  "set (effectQueue (base_set s v st)) \<subseteq>
     set (effectQueue st) \<union> {sub_fn sb | sb. sb \<in> set (subs st) \<and> s \<in> set (sub_deps sb)}"
proof (cases "sigs st s = v")
  case True
  then show ?thesis by (simp add: base_set_def)
next
  case False
  let ?st = "st\<lparr>sigs := (sigs st)(s := v)\<rparr>"
  have "\<forall>i\<in>set (observers s st). i < length (subs ?st)"
    by (simp add: observers_def)
  from fold_rerun_queue [OF this]
  have "set (effectQueue (base_set s v st)) =
          set (effectQueue st) \<union> (\<lambda>i. sub_fn (subs st ! i)) ` set (observers s st)"
    using False by (simp add: base_set_def)
  moreover have "(\<lambda>i. sub_fn (subs st ! i)) ` set (observers s st)
                   \<subseteq> {sub_fn sb | sb. sb \<in> set (subs st) \<and> s \<in> set (sub_deps sb)}"
    by (auto simp: observers_def)
  ultimately show ?thesis by blast
qed

lemma set_signal_not_requeued:
  assumes dist: "distinct (map fst (effectDeps st))"
    and nodep: "x \<notin> set (deps_of st fn)"
    and nosub: "\<forall>sb\<in>set (subs st). sub_fn sb = fn \<longrightarrow> x \<notin> set (sub_deps sb)"
  shows "(fn \<in> set (effectQueue (set_signal x w st))) = (fn \<in> set (effectQueue st))"
proof -
  have r: "(fn \<in> set (effectQueue (reorder x st))) = (fn \<in> set (effectQueue st))"
    using nodep deps_of_mem [OF dist, of fn x] by (auto simp: reorder_def scan_set)
  have b: "(fn \<in> set (effectQueue (base_set x w st'))) = (fn \<in> set (effectQueue st'))"
    if "subs st' = subs st" for st'
    using base_set_queue [of x w st'] base_set_queue_mono [of st' x w] nosub that by auto
  show ?thesis
    using r b [of st] b [of "reorder x st"] by (simp add: set_signal_def)
qed

lemma shrunk_refl [simp]: "list_all2 shrunk xs xs"
  by (simp add: list_all2_refl shrunk_def)

lemma shrunk_trans:
  "list_all2 shrunk xs ys \<Longrightarrow> list_all2 shrunk ys zs \<Longrightarrow> list_all2 shrunk xs zs"
  using list_all2_trans [of shrunk shrunk shrunk xs ys zs] by (auto simp: shrunk_def)

lemma rerun_shrunk: "list_all2 shrunk (subs (rerun i st)) (subs st)"
proof (cases "i < length (subs st)")
  case True
  have "list_all2 shrunk ((subs st)[i := (subs st ! i)\<lparr>sub_deps := []\<rparr>]) ((subs st)[i := subs st ! i])"
    by (rule list_all2_update_cong) (simp_all add: shrunk_def)
  then show ?thesis using True by (simp add: rerun_def Let_def)
next
  case False
  then show ?thesis by (simp add: rerun_def)
qed

lemma fold_rerun_shrunk: "list_all2 shrunk (subs (fold rerun is st)) (subs st)"
proof (induction "is" arbitrary: st)
  case Nil
  then show ?case by simp
next
  case (Cons i "is")
  from shrunk_trans [OF Cons.IH [of "rerun i st"] rerun_shrunk [of i st]]
  show ?case by simp
qed

lemma base_set_shrunk: "list_all2 shrunk (subs (base_set s v st)) (subs st)"
  using fold_rerun_shrunk [of "observers s st" "st\<lparr>sigs := (sigs st)(s := v)\<rparr>"]
  by (simp add: base_set_def)

lemma set_signal_shrunk: "list_all2 shrunk (subs (set_signal s v st)) (subs st)"
  using base_set_shrunk [of s v st] base_set_shrunk [of s v "reorder s st"]
  by (simp add: set_signal_def)

lemma exec_shrunk: "list_all2 shrunk (subs (outcome_state (exec p st))) (subs st)"
proof (induction p arbitrary: st)
  case (Read s k)
  from Read.IH [of "k (sigs st s)" "get s st"] show ?case by simp
next
  case (Write s v p)
  from shrunk_trans [OF Write.IH [of "set_signal s v st"] set_signal_shrunk [of s v st]]
  show ?case by simp
next
  case (Push v p)
  from Push.IH [of "st\<lparr>out := out st @ [v]\<rparr>"] show ?case by simp
qed simp_all

lemma createDeferredEffect_subs:
  assumes ok: "createDeferredEffect F fn v st = Ok st'"
    and sb: "sb \<in> set (subs st')"
  shows "(sub_fn sb = fn \<and> set (sub_deps sb) = set (reads (F fn v) (body_start fn st))) \<or>
         (\<exists>sb0\<in>set (subs st). shrunk sb sb0)"
proof -
  let ?b = "body_start fn st"
  let ?i = "length (subs st)"
  from createDeferredEffect_Ok [OF ok] obtain st'' where
    ex: "exec (F fn v) ?b = Ok st''" and
    st': "st' = onCleanup fn (leave_computation ?i st st'')"
    by blast
  have sh: "list_all2 shrunk (subs st'') (subs st @ [\<lparr>sub_fn = fn, sub_deps = [], sub_owner = owner st\<rparr>])"
    using exec_shrunk [of "F fn v" ?b] by (simp add: ex)
  then have len: "length (subs st'') = Suc ?i"
    by (simp add: list_all2_lengthD)
  have len': "length (subs st') = Suc ?i"
    using len by (simp add: st')
  from sb obtain j where j: "j < Suc ?i" "sb = subs st' ! j"
    using len' by (metis in_set_conv_nth)
  show ?thesis
  proof (cases "j = ?i")
    case True
    have "sub_fn sb = fn"
      using createDeferredEffect_fields(5) [of st' F fn v st] ok j True len'
      by (metis length_map lessI nth_append_length nth_map outcome_state.simps(1))
    with createDeferredEffect_tracked(3) [OF ok] j True show ?thesis by simp
  next
    case False
    with j have lt: "j < ?i" by simp
    have "sb = subs st'' ! j"
      using j False by (simp add: st' leave_computation_def)
    moreover have "shrunk (subs st'' ! j) (subs st ! j)"
      using list_all2_nthD [OF sh, of j] lt len by (simp add: nth_append)
    ultimately show ?thesis using lt by auto
  qed
qed









lemma fold_cleanup_callback_fields [simp]:
  "subs (fold cleanup_callback cbs st) = subs st"
  "cleanups (fold cleanup_callback cbs st) = cleanups st"
  "runningEffects (fold cleanup_callback cbs st) = runningEffects st"
  "effectTaskIsScheduled (fold cleanup_callback cbs st) = effectTaskIsScheduled st"
  "out (fold cleanup_callback cbs st) = out st"
  by (induction cbs arbitrary: st; simp add: cleanup_callback_def)+










lemma subsequent_run_single_flight:
  "single_flight st \<Longrightarrow> single_flight (subsequent_run fn st)"
  by (auto simp: single_flight_def subsequent_run_def Let_def)

lemma rerun_single_flight: "single_flight st \<Longrightarrow> single_flight (rerun i st)"
proof (cases "i < length (subs st)")
  case True
  assume sf: "single_flight st"
  have "single_flight (subsequent_run fn (st\<lparr>subs := xs, owner := ow\<rparr>))" for fn xs ow
    using sf by (intro subsequent_run_single_flight) (simp add: single_flight_def)
  then show ?thesis
    using True by (simp add: rerun_def Let_def single_flight_def)
next
  case False
  assume "single_flight st"
  with False show ?thesis by (simp add: rerun_def)
qed

lemma fold_rerun_single_flight: "single_flight st \<Longrightarrow> single_flight (fold rerun is st)"
  by (induction "is" arbitrary: st) (simp_all add: rerun_single_flight)

lemma base_set_single_flight: "single_flight st \<Longrightarrow> single_flight (base_set s v st)"
proof -
  assume sf: "single_flight st"
  then have "single_flight (st\<lparr>sigs := (sigs st)(s := v)\<rparr>)"
    by (simp add: single_flight_def)
  from fold_rerun_single_flight [OF this] sf show ?thesis
    by (simp add: base_set_def)
qed

lemma set_signal_single_flight: "single_flight st \<Longrightarrow> single_flight (set_signal s v st)"
proof -
  assume sf: "single_flight st"
  then have "single_flight (reorder s st)"
    by (simp add: single_flight_def)
  with sf show ?thesis
    by (simp add: set_signal_def base_set_single_flight)
qed

lemma get_single_flight: "single_flight st \<Longrightarrow> single_flight (get s st)"
  by (simp add: single_flight_def)

lemma exec_single_flight:
  "single_flight st \<Longrightarrow> single_flight (outcome_state (exec p st))"
proof (induction p arbitrary: st)
  case (Read s k)
  from Read.IH [of "k (sigs st s)" "get s st"] Read.prems show ?case
    by (simp add: get_single_flight)
next
  case (Write s v p)
  from Write.IH [of "set_signal s v st"] Write.prems show ?case
    by (simp add: set_signal_single_flight)
next
  case (Push v p)
  have "single_flight (st\<lparr>out := out st @ [v]\<rparr>)"
    using Push.prems by (simp add: single_flight_def)
  from Push.IH [OF this] show ?case by simp
qed simp_all

lemma createDeferredEffect_single_flight:
  assumes "single_flight st"
  shows "single_flight (outcome_state (createDeferredEffect F fn v st))"
proof -
  let ?b = "body_start fn st"
  have "single_flight ?b"
    using assms by (simp add: single_flight_def)
  from exec_single_flight [OF this, of "F fn v"] show ?thesis
    by (cases "exec (F fn v) ?b")
      (simp_all add: single_flight_def createDeferredEffect_def createEffect_def
        wrapper_initial_def body_start_def)
qed

lemma dispose_single_flight: "single_flight st \<Longrightarrow> single_flight (dispose ow st)"
proof -
  have "microtasks (fold cleanup_callback cbs st) = microtasks st" for cbs
    by (induction cbs arbitrary: st) (simp_all add: cleanup_callback_def)
  then show "single_flight st \<Longrightarrow> single_flight (dispose ow st)"
    by (simp add: single_flight_def dispose_def Let_def)
qed

lemma run_queue_flags:
  assumes res: "run_queue F st = Some r" and run: "runningEffects st"
  shows "runningEffects (outcome_state r) \<and>
         effectTaskIsScheduled (outcome_state r) = effectTaskIsScheduled st \<and>
         microtasks (outcome_state r) = microtasks st"
proof -
  have "F = F \<longrightarrow> runningEffects st \<longrightarrow>
          runningEffects (outcome_state r) \<and>
          effectTaskIsScheduled (outcome_state r) = effectTaskIsScheduled st \<and>
          microtasks (outcome_state r) = microtasks st"
  proof (rule run_queue.raw_induct
      [OF _ res, where P = "\<lambda>F' st r. F' = F \<longrightarrow> runningEffects st \<longrightarrow>
          runningEffects (outcome_state r) \<and>
          effectTaskIsScheduled (outcome_state r) = effectTaskIsScheduled st \<and>
          microtasks (outcome_state r) = microtasks st"])
    fix rq F' s r
    assume IH: "\<And>G s' r'. rq G s' = Some r' \<Longrightarrow>
                  G = F \<longrightarrow> runningEffects s' \<longrightarrow>
                    runningEffects (outcome_state r') \<and>
                    effectTaskIsScheduled (outcome_state r') = effectTaskIsScheduled s' \<and>
                    microtasks (outcome_state r') = microtasks s'"
      and step: "(case effectQueue s of
                    [] \<Rightarrow> Some (Ok s)
                  | fn # q \<Rightarrow>
                      (case createDeferredEffect F' fn Undefined
                              (s\<lparr>effectQueue := set_delete fn (effectQueue s)\<rparr>) of
                         Ok st' \<Rightarrow> rq F' st'
                       | Threw st' \<Rightarrow> Some (Threw st'))) = Some r"
    show "F' = F \<longrightarrow> runningEffects s \<longrightarrow>
            runningEffects (outcome_state r) \<and>
            effectTaskIsScheduled (outcome_state r) = effectTaskIsScheduled s \<and>
            microtasks (outcome_state r) = microtasks s"
    proof (intro impI)
      assume F': "F' = F" and run: "runningEffects s"
      show "runningEffects (outcome_state r) \<and>
            effectTaskIsScheduled (outcome_state r) = effectTaskIsScheduled s \<and>
            microtasks (outcome_state r) = microtasks s"
      proof (cases "effectQueue s")
        case Nil
        with step run show ?thesis by auto
      next
        case (Cons g q)
        let ?s0 = "s\<lparr>effectQueue := set_delete g (effectQueue s)\<rparr>"
        have run0: "runningEffects ?s0" using run by simp
        define s1 where "s1 = outcome_state (createDeferredEffect F g Undefined ?s0)"
        note f = createDeferredEffect_fields(1) [OF s1_def]
          createDeferredEffect_fields(7) [OF s1_def run0]
          createDeferredEffect_fields(8) [OF s1_def run0]
        show ?thesis
        proof (cases "createDeferredEffect F g Undefined ?s0")
          case (Threw st1)
          with step Cons F' have "r = Threw st1" by simp
          with Threw f run show ?thesis by (simp add: s1_def)
        next
          case (Ok st1)
          with step Cons F' have rq: "rq F st1 = Some r" by simp
          from Ok f run have "runningEffects st1"
            "effectTaskIsScheduled st1 = effectTaskIsScheduled s"
            "microtasks st1 = microtasks s"
            by (simp_all add: s1_def)
          with IH [OF rq] show ?thesis by simp
        qed
      qed
    qed
  qed
  with run show ?thesis by simp
qed

lemma runEffects_single_flight:
  assumes "runEffects F st = Some r" and "microtasks st = []"
  shows "single_flight (outcome_state r)"
proof -
  from assms(1) obtain r0 where r0: "run_queue F (st\<lparr>runningEffects := True\<rparr>) = Some r0"
    and r: "microtasks (outcome_state r) = microtasks (outcome_state r0)"
    by (cases "run_queue F (st\<lparr>runningEffects := True\<rparr>)")
      (auto simp: runEffects_def split: outcome.splits)
  from run_queue_flags [OF r0] assms(2) r show ?thesis
    by (simp add: single_flight_def)
qed

lemma run_microtask_single_flight:
  assumes "single_flight st" and "run_microtask F st = Some r"
  shows "single_flight (outcome_state r)"
proof (cases "microtasks st")
  case Nil
  with assms show ?thesis by (auto simp: run_microtask_def)
next
  case (Cons c ms)
  with assms(1) have ms: "ms = []" by (simp add: single_flight_def)
  show ?thesis
  proof (cases c)
    case None
    with assms(2) Cons ms have "runEffects F (st\<lparr>microtasks := []\<rparr>) = Some r"
      by (simp add: run_microtask_def flush_task_def)
    from runEffects_single_flight [OF this] show ?thesis by simp
  next
    case (Some ow)
    let ?st = "st\<lparr>microtasks := [], owner := Some ow, listener := None\<rparr>"
    from assms(2) Cons ms Some obtain r0 where r0: "runEffects F ?st = Some r0"
      and r: "microtasks (outcome_state r) = microtasks (outcome_state r0)"
         "effectTaskIsScheduled (outcome_state r) = effectTaskIsScheduled (outcome_state r0)"
      by (cases "runEffects F ?st")
        (auto simp: run_microtask_def flush_task_def runWithOwner_def split: outcome.splits)
    from runEffects_single_flight [OF r0] r show ?thesis
      by (simp add: single_flight_def)
  qed
qed

lemma createDeferredEffect_cleanups:
  "cleanups (outcome_state (createDeferredEffect F fn v st)) =
     (case createDeferredEffect F fn v st of
        Threw st' \<Rightarrow> cleanups st
      | Ok st' \<Rightarrow>
          (case owner st of None \<Rightarrow> cleanups st | Some ow \<Rightarrow> cleanups st @ [(ow, fn)]))"
proof (cases "createDeferredEffect F fn v st")
  case (Ok st')
  from createDeferredEffect_tracked(4) [OF this] Ok show ?thesis by simp
next
  case (Threw st')
  from createDeferredEffect_Threw [OF this] obtain st'' where
    ex: "exec (F fn v) (body_start fn st) = Threw st''" and
    st': "st' = st''\<lparr>owner := owner st, listener := listener st\<rparr>"
    by blast
  from exec_fields [of "F fn v" "body_start fn st"] ex have "cleanups st'' = cleanups st"
    by simp
  with Threw st' show ?thesis by simp
qed


lemma run_queue_steps_reach:
  assumes res: "run_queue F st = Some r"
  shows "\<exists>n. snd (run_queue_steps n F st) = r"
proof -
  have "F = F \<longrightarrow> (\<exists>n. snd (run_queue_steps n F st) = r)"
  proof (rule run_queue.raw_induct
      [OF _ res, where P = "\<lambda>F' st r. F' = F \<longrightarrow> (\<exists>n. snd (run_queue_steps n F st) = r)"])
    fix rq F' s r
    assume IH: "\<And>G s' r'. rq G s' = Some r' \<Longrightarrow>
                  G = F \<longrightarrow> (\<exists>n. snd (run_queue_steps n F s') = r')"
      and step: "(case effectQueue s of
                    [] \<Rightarrow> Some (Ok s)
                  | fn # q \<Rightarrow>
                      (case createDeferredEffect F' fn Undefined
                              (s\<lparr>effectQueue := set_delete fn (effectQueue s)\<rparr>) of
                         Ok st' \<Rightarrow> rq F' st'
                       | Threw st' \<Rightarrow> Some (Threw st'))) = Some r"
    show "F' = F \<longrightarrow> (\<exists>n. snd (run_queue_steps n F s) = r)"
    proof
      assume F': "F' = F"
      show "\<exists>n. snd (run_queue_steps n F s) = r"
      proof (cases "effectQueue s")
        case Nil
        with step have "snd (run_queue_steps 0 F s) = r" by simp
        then show ?thesis ..
      next
        case (Cons g q)
        let ?s0 = "s\<lparr>effectQueue := set_delete g (effectQueue s)\<rparr>"
        show ?thesis
        proof (cases "createDeferredEffect F g Undefined ?s0")
          case (Threw st1)
          with step Cons F' have r: "r = Threw st1" by simp
          from Threw Cons have "snd (run_queue_steps (Suc 0) F s) = Threw st1" by simp
          with r have "snd (run_queue_steps (Suc 0) F s) = r" by simp
          then show ?thesis ..
        next
          case (Ok st1)
          with step Cons F' have rq: "rq F st1 = Some r" by simp
          from IH [OF rq] obtain n where n: "snd (run_queue_steps n F st1) = r" by auto
          from Ok Cons have "snd (run_queue_steps (Suc n) F s) = snd (run_queue_steps n F st1)"
            by simp
          with n have "snd (run_queue_steps (Suc n) F s) = r" by simp
          then show ?thesis ..
        qed
      qed
    qed
  qed
  then show ?thesis by simp
qed






subsection \<open>Evaluation of scenarios\<close>

lemmas scheduler_defs =
  run_microtask_def init_state_def createSignal_def createDeferredEffect_def createEffect_def
  wrapper_initial_def enter_computation_def first_run_def clear_deps_def get_def base_get_def
  set_add_def leave_computation_def onCleanup_def set_signal_def base_set_def observers_def
  rerun_def subsequent_run_def flush_task_def runWithOwner_def runEffects_def set_delete_def
  record_dep_def Let_def upt_rec reorder_def scan_def scan_deps_def move_to_end_def
  deps_of_def

lemma c3_first_flush_eval:
  "run_microtask branching (set_signal 2 (Num 5) c3_registered) = Some (Ok c3_first_flush) \<and>
   out c3_first_flush = [Num 0, Undefined] \<and>
   deps_of c3_first_flush 1 = [1, 2] \<and> map sub_deps (subs c3_first_flush) = [[], [1,2]] \<and>
   effectTaskIsScheduled c3_first_flush = False"
  unfolding c3_first_flush_def c3_registered_def after_microtask_def
  by (simp add: scheduler_defs branching_def run_queue.simps)

lemma c3_second_write_eval:
  "effectQueue c3_second_write = [1] \<and> microtasks c3_second_write = [Some (Comp 1)] \<and>
   map sub_deps (subs c3_second_write) = [[], []] \<and>
   map sub_fn (subs c3_second_write) = [1, 1] \<and>
   effectDeps c3_second_write = [(1, [1, 2])] \<and> sigs c3_second_write 1 = Num 2"
  unfolding c3_second_write_def c3_first_flush_def c3_registered_def after_microtask_def
  by (simp add: scheduler_defs branching_def run_queue.simps)

lemma c3_replay_state_eval:
  "runningEffects c3_replay_state \<and> effectQueue c3_replay_state = [] \<and>
   effectDeps c3_replay_state = [(1, [1, 2])] \<and>
   map sub_deps (subs c3_replay_state) = [[], []] \<and>
   map sub_fn (subs c3_replay_state) = [1, 1] \<and>
   owner c3_replay_state = Some (Comp 1) \<and>
   sigs c3_replay_state 1 = Num 2"
  using c3_second_write_eval by (simp add: c3_replay_state_def c3_loop_entry_def set_delete_def)

lemma c3_replayed_Ok:
  "createDeferredEffect branching 1 Undefined c3_replay_state = Ok c3_replayed"
  unfolding c3_replayed_def
  by (simp add: createDeferredEffect_def createEffect_def wrapper_initial_def branching_def
      split: outcome.splits)

lemma c3_replay_reads: "reads (branching 1 Undefined) (body_start 1 c3_replay_state) = [1]"
  using c3_replay_state_eval by (simp add: branching_def)


lemma c8_written_eval:
  "effectQueue c8_written = [1, 2] \<and> microtasks c8_written = [Some (Comp 0)] \<and>
   effectTaskIsScheduled c8_written \<and> \<not> runningEffects c8_written \<and>
   out c8_written = [Num 1] \<and> length (subs c8_written) = 2"
  unfolding c8_written_def
  by (simp add: scheduler_defs thrower_def)

lemma c8_thrown_eval:
  "run_microtask thrower c8_written = Some (Threw c8_thrown) \<and>
   effectQueue c8_thrown = [2] \<and> out c8_thrown = [Num 1] \<and>
   map sub_fn (subs c8_thrown) = [1, 2, 1] \<and>
   runningEffects c8_thrown \<and> effectTaskIsScheduled c8_thrown"
  unfolding c8_thrown_def after_microtask_def c8_written_def
  by (simp add: scheduler_defs thrower_def run_queue.simps)











subsection \<open>The claims\<close>

text \<open>
  C1. A tracked signal \<open>S\<close> (signal 1) starts with value 1; a deferred effect that reads
  \<open>S\<close> and pushes the value is registered. The registration runs the effect once, the
  list is \<open>[1]\<close>. The writes \<open>S.write(2); S.write(3)\<close> leave the list at \<open>[1]\<close> and leave
  one flush microtask pending. The microtask reruns the effect once, with the latest
  value: the list is \<open>[1, 3]\<close>.
\<close>

theorem C1_deferred_writes_coalesce:
  "createDeferredEffect (logger 1) 1 Undefined (createSignal 1 (Num 1) init_state)
     = Ok c1_registered \<and>
   out c1_registered = [Num 1] \<and>
   out (set_signal 1 (Num 2) c1_registered) = [Num 1] \<and>
   out c1_written = [Num 1] \<and>
   effectQueue c1_written = [1] \<and>
   length (microtasks c1_written) = 1 \<and>
   (\<exists>st. run_microtask (logger 1) c1_written = Some (Ok st) \<and>
         out st = [Num 1, Num 3] \<and> out st \<noteq> [Num 1, Num 2, Num 3] \<and>
         effectQueue st = [] \<and> microtasks st = [] \<and> length (subs st) = 2)"
  unfolding c1_written_def c1_registered_def
  by (simp add: scheduler_defs logger_def run_queue.simps)

text \<open>
  C2. A tracked write during a flush first reorders the queue and then delegates to the
  base writer. The reordering moves every effect whose dependency set (in the registry)
  contains the writer to the tail of the queue, in the order of the registry; the other
  members keep their order, and nothing else in the state changes. No dependent effect
  is skipped, whichever effect is executing.
\<close>

theorem C2_write_moves_dependents_to_tail:
  assumes "runningEffects st" and "distinct (map fst (effectDeps st))"
  shows "set_signal s v st = base_set s v (reorder s st) \<and>
         reorder s st =
           st\<lparr>effectQueue :=
                filter (\<lambda>fn. s \<notin> set (deps_of st fn)) (effectQueue st)
                  @ filter (\<lambda>fn. s \<in> set (deps_of st fn)) (map fst (effectDeps st))\<rparr> \<and>
         (\<forall>fn. s \<in> set (deps_of st fn) \<longrightarrow> fn \<in> set (effectQueue (reorder s st)))"
proof -
  have a: "set_signal s v st = base_set s v (reorder s st)"
    using assms(1) by (simp add: set_signal_def)
  have m: "map fst (filter (\<lambda>e. s \<in> set (snd e)) (effectDeps st))
             = filter (\<lambda>fn. s \<in> set (deps_of st fn)) (map fst (effectDeps st))"
    using deps_of_entry [OF assms(2)] by (simp add: filter_map comp_def cong: filter_cong)
  have b: "reorder s st =
           st\<lparr>effectQueue :=
                filter (\<lambda>fn. s \<notin> set (deps_of st fn)) (effectQueue st)
                  @ filter (\<lambda>fn. s \<in> set (deps_of st fn)) (map fst (effectDeps st))\<rparr>"
    using scan_eq [OF assms(2), of s "effectQueue st"] m
    by (simp add: reorder_def deps_of_mem [OF assms(2)])
  have c: "\<forall>fn. s \<in> set (deps_of st fn) \<longrightarrow> fn \<in> set (effectQueue (reorder s st))"
    using deps_of_mem [OF assms(2)] by (force simp: reorder_def scan_set)
  from a b c show ?thesis by blast
qed

theorem C2_write_moves_dependents_to_tail_witness:
  "runningEffects c2_state \<and> distinct (map fst (effectDeps c2_state)) \<and>
   effectQueue c2_state = [3, 1, 4] \<and>
   effectQueue (reorder 5 c2_state) = [4, 1, 3] \<and>
   set_signal 5 (Num 9) c2_state = base_set 5 (Num 9) (reorder 5 c2_state)"
  using C2_write_moves_dependents_to_tail [of c2_state 5 "Num 9"]
  by (simp add: c2_state_def init_state_def deps_of_def)









text \<open>
  C6. The comment at line 94 says ``add, or move to the end, of the queue'', and the
  claim repeats it; \<open>Set.add\<close> of a member leaves it where it is. Effect 1 is registered
  twice (its first registration reads signal 1, its second signal 2), effect 2 reads
  signal 3. Writing signals 1 and 3 queues \<open>[1, 2]\<close>. Writing signal 2 then invokes the
  wrapper of the second registration of effect 1, after its first run: the queue stays
  \<open>[1, 2]\<close>, effect 1 is not moved to the tail. No second microtask is queued.
\<close>

theorem C6_queue_add_keeps_position:
  "effectQueue c6_two_queued = [1, 2] \<and>
   \<not> runningEffects c6_two_queued \<and>
   observers 2 c6_two_queued = [1] \<and>
   map sub_fn (subs c6_two_queued) = [1, 1, 2] \<and>
   effectQueue (subsequent_run 1 c6_two_queued) = [1, 2] \<and>
   effectQueue (set_signal 2 (Num 5) c6_two_queued) = [1, 2] \<and>
   effectQueue (set_signal 2 (Num 5) c6_two_queued) \<noteq> [2, 1] \<and>
   microtasks (set_signal 2 (Num 5) c6_two_queued) = microtasks c6_two_queued \<and>
   length (microtasks c6_two_queued) = 1"
  unfolding c6_two_queued_def c6_registered_def
  by (simp add: scheduler_defs two_faced_def)

text \<open>
  C7, as stated, fails. Effect 1 of \<open>two_faced\<close> is registered twice, reading signal 1 in
  its first registration and signal 2 in its second, so two base computations run the
  same function. Signal 2 is written and the flush replays effect 1. The replay reads
  signal 2 only, and afterwards the dependency set of effect 1 is \<open>[2]\<close>. But the base
  computation of the first registration still listens to signal 1: a write to signal 1
  invokes its wrapper, which puts effect 1 back into the queue (line 94).
\<close>

theorem C7_counterexample:
  "map sub_fn (subs c7_registered) = [1, 1] \<and>
   map sub_deps (subs c7_registered) = [[1], [2]] \<and>
   effectQueue c7_written = [1] \<and>
   runningEffects c7_replay_state \<and>
   distinct (map fst (effectDeps c7_replay_state)) \<and>
   createDeferredEffect two_faced 1 Undefined c7_replay_state = Ok c7_replayed \<and>
   reads (two_faced 1 Undefined) (body_start 1 c7_replay_state) = [2] \<and>
   deps_of c7_replayed 1 = [2] \<and>
   1 \<notin> set (deps_of c7_replayed 1) \<and>
   effectQueue c7_replayed = [] \<and>
   effectQueue (set_signal 1 (Num 9) c7_replayed) = [1] \<and>
   run_microtask two_faced c7_written = Some (Ok c7_flushed) \<and>
   deps_of c7_flushed 1 = [2] \<and>
   effectQueue c7_flushed = [] \<and>
   effectQueue (set_signal 1 (Num 9) c7_flushed) = [1]"
  unfolding c7_flushed_def after_microtask_def c7_replayed_def c7_replay_state_def
    c7_written_def c7_registered_def
  by (simp add: scheduler_defs two_faced_def run_queue.simps body_start_def)

text \<open>
  C7, amended. An effect \<open>fn\<close> runs during a flush and does not read signal \<open>x\<close>. Its
  dependency set is emptied before the body starts, so \<open>x\<close> is not in it after the run,
  whatever it held before. If moreover no base computation of the same function, left by
  an earlier registration or replay, still listens to \<open>x\<close>, then a write to \<open>x\<close> leaves
  the membership of \<open>fn\<close> in the queue as it was.
\<close>

theorem C7_unread_signal_does_not_requeue:
  assumes "runningEffects st"
    and "distinct (map fst (effectDeps st))"
    and "createDeferredEffect F fn v st = Ok st1"
    and "x \<notin> set (reads (F fn v) (body_start fn st))"
    and "\<forall>sb\<in>set (subs st). sub_fn sb = fn \<longrightarrow> x \<notin> set (sub_deps sb)"
  shows "deps_of (body_start fn st) fn = [] \<and>
         x \<notin> set (deps_of st1 fn) \<and>
         (fn \<in> set (effectQueue (set_signal x w st1))) = (fn \<in> set (effectQueue st1))"
proof -
  let ?i = "length (subs st)"
  have st1: "st1 = outcome_state (createDeferredEffect F fn v st)"
    by (simp add: assms(3))
  have nodep: "x \<notin> set (deps_of st1 fn)"
    using createDeferredEffect_tracked(1) [OF assms(3) assms(1)] assms(4) by simp
  have dist: "distinct (map fst (effectDeps st1))"
    by (rule createDeferredEffect_fields(10) [OF st1 assms(2)])
  have nosub: "\<forall>sb\<in>set (subs st1). sub_fn sb = fn \<longrightarrow> x \<notin> set (sub_deps sb)"
  proof (intro ballI impI)
    fix sb assume sb: "sb \<in> set (subs st1)" and fn: "sub_fn sb = fn"
    from createDeferredEffect_subs [OF assms(3) sb]
    show "x \<notin> set (sub_deps sb)"
      using assms(4,5) fn by (auto simp: shrunk_def)
  qed
  show ?thesis
    using nodep set_signal_not_requeued [OF dist nodep nosub] by (simp add: body_start_deps)
qed

theorem C7_unread_signal_does_not_requeue_witness:
  "runningEffects c3_replay_state \<and>
   distinct (map fst (effectDeps c3_replay_state)) \<and>
   createDeferredEffect branching 1 Undefined c3_replay_state = Ok c3_replayed \<and>
   2 \<notin> set (reads (branching 1 Undefined) (body_start 1 c3_replay_state)) \<and>
   map sub_deps (subs c3_replay_state) = [[], []] \<and>
   2 \<in> set (deps_of c3_replay_state 1) \<and>
   2 \<notin> set (deps_of c3_replayed 1) \<and>
   1 \<notin> set (effectQueue c3_replayed) \<and>
   1 \<notin> set (effectQueue (set_signal 2 (Num 8) c3_replayed)) \<and>
   effectQueue (set_signal 2 (Num 8) c3_second_flush) = [] \<and>
   microtasks (set_signal 2 (Num 8) c3_second_flush) = []"
proof -
  note e = c3_replay_state_eval
  have after: "effectQueue (set_signal 2 (Num 8) c3_second_flush) = []"
    "microtasks (set_signal 2 (Num 8) c3_second_flush) = []"
    unfolding c3_second_flush_def c3_second_write_def c3_first_flush_def c3_registered_def
      after_microtask_def
    by (simp_all add: scheduler_defs branching_def run_queue.simps)
  have run: "runningEffects c3_replay_state"
    and dist: "distinct (map fst (effectDeps c3_replay_state))"
    using e by simp_all
  have nr: "2 \<notin> set (reads (branching 1 Undefined) (body_start 1 c3_replay_state))"
    using c3_replay_reads by simp
  have "\<forall>ds\<in>set (map sub_deps (subs c3_replay_state)). 2 \<notin> set ds"
    using e by simp
  then have ns: "\<forall>sb\<in>set (subs c3_replay_state). sub_fn sb = 1 \<longrightarrow> 2 \<notin> set (sub_deps sb)"
    by simp
  have old: "2 \<in> set (deps_of c3_replay_state 1)"
    using e by (simp add: deps_of_def)
  have q: "1 \<notin> set (effectQueue c3_replayed)"
    using e unfolding c3_replayed_def
    by (simp add: createDeferredEffect_def createEffect_def wrapper_initial_def branching_def
        first_run_def clear_deps_def enter_computation_def get_def base_get_def
        record_dep_def Let_def)
  from C7_unread_signal_does_not_requeue [OF run dist c3_replayed_Ok nr ns, of "Num 8"]
    run dist c3_replayed_Ok nr old q e after
  show ?thesis by simp
qed

text \<open>
  C8. If the replay of the effect at the head of the queue throws, the loop ends there
  with the state of the throw: nothing catches the exception, and the effects that were
  behind it are still in the queue. A flush that ends with an exception leaves
  \<open>runningEffects\<close> true and \<open>effectTaskIsScheduled\<close> as it was when the flush started
  (true, when the flush was started by the microtask, as in the witness).
\<close>

theorem C8_exception_leaves_flush_state:
  "(effectQueue s = fn # q \<and>
    createDeferredEffect F fn Undefined (s\<lparr>effectQueue := set_delete fn (effectQueue s)\<rparr>)
      = Threw s1
    \<longrightarrow> run_queue F s = Some (Threw s1) \<and> set q - {fn} \<subseteq> set (effectQueue s1)) \<and>
   (runEffects F st = Some (Threw st')
    \<longrightarrow> run_queue F (st\<lparr>runningEffects := True\<rparr>) = Some (Threw st') \<and>
        runningEffects st' \<and> effectTaskIsScheduled st' = effectTaskIsScheduled st)"
proof -
  let ?s0 = "s\<lparr>effectQueue := set_delete fn (effectQueue s)\<rparr>"
  have a: "run_queue F s = Some (Threw s1) \<and> set q - {fn} \<subseteq> set (effectQueue s1)"
    if q: "effectQueue s = fn # q" and t: "createDeferredEffect F fn Undefined ?s0 = Threw s1"
  proof -
    have "run_queue F s = Some (Threw s1)"
      using q t by (subst run_queue.simps) simp
    moreover have "set (effectQueue ?s0) \<subseteq> set (effectQueue s1)"
      using createDeferredEffect_fields(6) [of s1 F fn Undefined ?s0] t by simp
    ultimately show ?thesis using q by auto
  qed
  have b: "run_queue F (st\<lparr>runningEffects := True\<rparr>) = Some (Threw st') \<and>
           runningEffects st' \<and> effectTaskIsScheduled st' = effectTaskIsScheduled st"
    if "runEffects F st = Some (Threw st')"
  proof -
    from that have r: "run_queue F (st\<lparr>runningEffects := True\<rparr>) = Some (Threw st')"
      by (auto simp: runEffects_def split: option.splits outcome.splits)
    from run_queue_flags [OF r] r show ?thesis by simp
  qed
  from a b show ?thesis by blast
qed

theorem C8_exception_leaves_flush_state_witness:
  "effectQueue c8_loop_entry = [1, 2] \<and>
   createDeferredEffect thrower 1 Undefined
     (c8_loop_entry\<lparr>effectQueue := set_delete 1 (effectQueue c8_loop_entry)\<rparr>)
     = Threw (c8_thrown\<lparr>owner := Some (Comp 0), listener := None\<rparr>) \<and>
   run_queue thrower c8_loop_entry
     = Some (Threw (c8_thrown\<lparr>owner := Some (Comp 0), listener := None\<rparr>)) \<and>
   runEffects thrower (c8_written\<lparr>microtasks := [], owner := Some (Comp 0), listener := None\<rparr>)
     = Some (Threw (c8_thrown\<lparr>owner := Some (Comp 0), listener := None\<rparr>)) \<and>
   run_microtask thrower c8_written = Some (Threw c8_thrown) \<and>
   effectQueue c8_thrown = [2] \<and>
   out c8_thrown = out c8_written \<and>
   runningEffects c8_thrown \<and> effectTaskIsScheduled c8_thrown"
proof -
  let ?st = "c8_written\<lparr>microtasks := [], owner := Some (Comp 0), listener := None\<rparr>"
  let ?st' = "c8_thrown\<lparr>owner := Some (Comp 0), listener := None\<rparr>"
  have q: "effectQueue c8_loop_entry = [1, 2]"
    using c8_written_eval by (simp add: c8_loop_entry_def)
  have t: "createDeferredEffect thrower 1 Undefined
             (c8_loop_entry\<lparr>effectQueue := set_delete 1 (effectQueue c8_loop_entry)\<rparr>)
             = Threw ?st'"
    unfolding c8_thrown_def after_microtask_def c8_loop_entry_def c8_written_def
    by (simp add: scheduler_defs thrower_def run_queue.simps)
  have r: "runEffects thrower ?st = Some (Threw ?st')"
    unfolding c8_thrown_def after_microtask_def c8_written_def
    by (simp add: scheduler_defs thrower_def run_queue.simps)
  from C8_exception_leaves_flush_state [of c8_loop_entry 1 "[2]" thrower ?st' ?st ?st'] q t r
    c8_written_eval c8_thrown_eval
  show ?thesis by simp
qed




text \<open>
  C10, as stated, fails in its part on cleanup callbacks. In the scenario of C8 the loop
  runs under the owner \<open>Comp 0\<close> and the replay of effect 1 throws: a base computation for
  effect 1 has been added, but lines 116 to 120 are not reached, and no cleanup callback
  is registered although a scope is active.
\<close>

theorem C10_counterexample:
  "effectQueue c8_loop_entry = [1, 2] \<and>
   runningEffects c8_loop_entry \<and>
   owner c8_loop_entry = Some (Comp 0) \<and>
   createDeferredEffect thrower 1 Undefined
     (c8_loop_entry\<lparr>effectQueue := set_delete 1 (effectQueue c8_loop_entry)\<rparr>)
     = Threw (c8_thrown\<lparr>owner := Some (Comp 0), listener := None\<rparr>) \<and>
   map sub_fn (subs c8_loop_entry) = [1, 2] \<and>
   map sub_fn (subs c8_thrown) = [1, 2, 1] \<and>
   cleanups c8_thrown = cleanups c8_loop_entry"
  unfolding c8_thrown_def after_microtask_def c8_loop_entry_def c8_written_def
  by (simp add: scheduler_defs thrower_def run_queue.simps)

text \<open>
  C10, amended. An iteration of the flush loop that replays \<open>fn\<close> calls
  \<open>createDeferredEffect\<close> anew: the base computations grow by one, for the function \<open>fn\<close>,
  whatever the outcome of the replay. A cleanup callback for \<open>fn\<close> is added exactly when
  an ownership scope is active and the replay completes; a replay that throws adds none.
\<close>

theorem C10_replay_adds_subscription:
  assumes "effectQueue st = fn # q"
    and "r = createDeferredEffect F fn Undefined
               (st\<lparr>effectQueue := set_delete fn (effectQueue st)\<rparr>)"
  shows "run_queue F st =
           (case r of Threw st' \<Rightarrow> Some (Threw st') | Ok st' \<Rightarrow> run_queue F st') \<and>
         map sub_fn (subs (outcome_state r)) = map sub_fn (subs st) @ [fn] \<and>
         length (filter (\<lambda>sb. sub_fn sb = fn) (subs (outcome_state r)))
           = Suc (length (filter (\<lambda>sb. sub_fn sb = fn) (subs st))) \<and>
         cleanups (outcome_state r) =
           (case r of
              Threw st' \<Rightarrow> cleanups st
            | Ok st' \<Rightarrow>
                (case owner st of
                   None \<Rightarrow> cleanups st
                 | Some ow \<Rightarrow> cleanups st @ [(ow, fn)]))"
proof -
  let ?st0 = "st\<lparr>effectQueue := set_delete fn (effectQueue st)\<rparr>"
  have a: "run_queue F st =
             (case r of Threw st' \<Rightarrow> Some (Threw st') | Ok st' \<Rightarrow> run_queue F st')"
    using assms by (subst run_queue.simps) simp
  have b: "map sub_fn (subs (outcome_state r)) = map sub_fn (subs st) @ [fn]"
    using createDeferredEffect_fields(5) [of "outcome_state r" F fn Undefined ?st0] assms(2)
    by simp
  have "length (filter (\<lambda>f. f = fn) (map sub_fn (subs (outcome_state r))))
          = Suc (length (filter (\<lambda>f. f = fn) (map sub_fn (subs st))))"
    by (simp add: b)
  then have c: "length (filter (\<lambda>sb. sub_fn sb = fn) (subs (outcome_state r)))
                  = Suc (length (filter (\<lambda>sb. sub_fn sb = fn) (subs st)))"
    by (simp add: filter_map comp_def)
  have d: "cleanups (outcome_state r) =
             (case r of
                Threw st' \<Rightarrow> cleanups st
              | Ok st' \<Rightarrow>
                  (case owner st of
                     None \<Rightarrow> cleanups st
                   | Some ow \<Rightarrow> cleanups st @ [(ow, fn)]))"
    using createDeferredEffect_cleanups [of F fn Undefined ?st0] assms(2)
    by (simp split: outcome.splits option.splits)
  from a b c d show ?thesis by simp
qed

theorem C10_replay_adds_subscription_witness:
  "effectQueue c3_loop_entry = [1] \<and>
   createDeferredEffect branching 1 Undefined
     (c3_loop_entry\<lparr>effectQueue := set_delete 1 (effectQueue c3_loop_entry)\<rparr>) = Ok c3_replayed \<and>
   map sub_fn (subs c3_loop_entry) = [1, 1] \<and>
   map sub_fn (subs c3_replayed) = [1, 1, 1] \<and>
   owner c3_loop_entry = Some (Comp 1) \<and>
   cleanups c3_replayed = cleanups c3_loop_entry @ [(Comp 1, 1)] \<and>
   effectQueue c8_loop_entry = [1, 2] \<and>
   map sub_fn (subs c8_loop_entry) = [1, 2] \<and>
   owner c8_loop_entry = Some (Comp 0) \<and>
   createDeferredEffect thrower 1 Undefined
     (c8_loop_entry\<lparr>effectQueue := set_delete 1 (effectQueue c8_loop_entry)\<rparr>)
     = Threw (c8_thrown\<lparr>owner := Some (Comp 0), listener := None\<rparr>) \<and>
   map sub_fn (subs c8_thrown) = [1, 2, 1] \<and>
   cleanups c8_thrown = cleanups c8_loop_entry"
proof -
  have q: "effectQueue c3_loop_entry = [1]"
    using c3_second_write_eval by (simp add: c3_loop_entry_def)
  have ok: "Ok c3_replayed =
              createDeferredEffect branching 1 Undefined
                (c3_loop_entry\<lparr>effectQueue := set_delete 1 (effectQueue c3_loop_entry)\<rparr>)"
    using c3_replayed_Ok by (simp add: c3_replay_state_def)
  have f: "map sub_fn (subs c3_loop_entry) = [1, 1]" "owner c3_loop_entry = Some (Comp 1)"
    using c3_second_write_eval by (simp_all add: c3_loop_entry_def)
  have q8: "effectQueue c8_loop_entry = [1, 2]"
    and f8: "map sub_fn (subs c8_loop_entry) = [1, 2]" "owner c8_loop_entry = Some (Comp 0)"
    unfolding c8_loop_entry_def c8_written_def
    by (simp_all add: scheduler_defs thrower_def)
  have th: "Threw (c8_thrown\<lparr>owner := Some (Comp 0), listener := None\<rparr>) =
              createDeferredEffect thrower 1 Undefined
                (c8_loop_entry\<lparr>effectQueue := set_delete 1 (effectQueue c8_loop_entry)\<rparr>)"
    unfolding c8_thrown_def after_microtask_def c8_loop_entry_def c8_written_def
    by (simp add: scheduler_defs thrower_def run_queue.simps)
  from C10_replay_adds_subscription [OF q ok] C10_replay_adds_subscription [OF q8 th]
    q ok [symmetric] th [symmetric] f q8 f8
  show ?thesis by simp
qed

end
